theory Spec2Isabelle
  imports
    Main
    "HOL-Library.Word"
    "HOL-Library.Multiset"
    "HOL-Library.AList"
    "HOL-Library.List_Lexorder"
    "HOL-Library.Char_ord"
begin

section \<open>Errors and the unreachable classifier (error.go)\<close>

text \<open>
  Go's \<open>error\<close> is an interface value; \<open>nil\<close> is \<open>None\<close>.  The datatype lists the
  concrete error types that \<open>isUnreachable\<close> tells apart in its type switch, the two error
  types of the package itself (\<open>*wrappedError\<close>, \<open>*cacheError\<close>), the two context errors,
  the error of the test registry, and \<open>OtherError\<close> for any error value that implements
  neither \<open>Unreachable()\<close> nor \<open>Cause()\<close>.
\<close>

datatype error =
    DNSError string                \<comment> \<open>\<open>*net.DNSError\<close>, its field \<open>Err\<close>\<close>
  | OpError "error option"         \<comment> \<open>\<open>*net.OpError\<close>, its field \<open>Err\<close>\<close>
  | SyscallError "error option"    \<comment> \<open>\<open>*os.SyscallError\<close>, its field \<open>Err\<close>\<close>
  | Errno nat                      \<comment> \<open>\<open>syscall.Errno\<close>\<close>
  | WrappedError "error option"    \<comment> \<open>\<open>*wrappedError\<close>, its field \<open>cause\<close>\<close>
  | CacheError string              \<comment> \<open>\<open>*cacheError\<close>, its field \<open>name\<close>\<close>
  | Canceled                       \<comment> \<open>\<open>context.Canceled\<close>\<close>
  | DeadlineExceeded               \<comment> \<open>\<open>context.DeadlineExceeded\<close>\<close>
  | Unreachable                    \<comment> \<open>\<open>unreachable{}\<close> of the tests\<close>
  | OtherError string

text \<open>The three errno values of \<open>isUnreachableErrno\<close>, with their Linux numbers.\<close>

definition ECONNABORTED :: nat where "ECONNABORTED = 103"
definition ECONNRESET :: nat where "ECONNRESET = 104"
definition ECONNREFUSED :: nat where "ECONNREFUSED = 111"

definition isUnreachableDNSError :: "string \<Rightarrow> bool" where
  "isUnreachableDNSError e_Err = (e_Err = ''no such host'')"

definition isUnreachableErrno :: "nat \<Rightarrow> bool" where
  "isUnreachableErrno e = (e = ECONNABORTED \<or> e = ECONNREFUSED \<or> e = ECONNRESET)"

text \<open>
  \<open>isUnreachable\<close>: the cases in the order of the type switch.  \<open>*wrappedError\<close> and
  \<open>*cacheError\<close> are the types of the package with an \<open>Unreachable()\<close> method: the
  former answers \<open>isUnreachable(e.cause)\<close>, the latter \<open>true\<close>, as does the test error.
\<close>

fun isUnreachable :: "error option \<Rightarrow> bool" where
  "isUnreachable None = False"
| "isUnreachable (Some (DNSError s)) = isUnreachableDNSError s"
| "isUnreachable (Some (OpError e)) = isUnreachable e"
| "isUnreachable (Some (SyscallError e)) = isUnreachable e"
| "isUnreachable (Some (Errno n)) = isUnreachableErrno n"
| "isUnreachable (Some (WrappedError e)) = isUnreachable e"
| "isUnreachable (Some (CacheError n)) = True"
| "isUnreachable (Some Canceled) = False"
| "isUnreachable (Some DeadlineExceeded) = False"
| "isUnreachable (Some Unreachable) = True"
| "isUnreachable (Some (OtherError s)) = False"

section \<open>Cache keys (cache.go)\<close>

record cacheKey =
  name :: string
  tags :: string

text \<open>\<open>strings.Join(tags, ",")\<close>\<close>

fun join :: "string list \<Rightarrow> string \<Rightarrow> string" where
  "join [] sep = []"
| "join [s] sep = s"
| "join (s # t # ss) sep = s @ sep @ join (t # ss) sep"

definition makeCacheKey :: "string \<Rightarrow> string list \<Rightarrow> cacheKey" where
  "makeCacheKey nm tgs = \<lparr>name = nm, tags = join tgs '',''\<rparr>"

definition copyStrings :: "string list \<Rightarrow> string list" where
  "copyStrings s = (if length s = 0 then [] else s)"

text \<open>
  \<open>sort.Strings\<close> orders by the bytewise lexicographic order of Go strings, which is the
  order of \<open>char list\<close> here; equal strings are indistinguishable, so the sorted slice is the
  one \<open>sort\<close> computes.
\<close>

definition sortedStrings :: "string list \<Rightarrow> string list" where
  "sortedStrings s = (let c = copyStrings s in if length c > 1 then sort c else c)"

text \<open>\<open>shuffledStrings\<close>, with the permutation \<open>rand.Perm(len(s))\<close> as an argument.\<close>

definition shuffledStrings :: "string list \<Rightarrow> nat list \<Rightarrow> string list" where
  "shuffledStrings s p = map (\<lambda>j. s ! j) p"

section \<open>Cache entries and the cache state (cache.go)\<close>

text \<open>
  A \<open>time.Time\<close> is an instant in nanoseconds, a \<open>time.Duration\<close> a signed 64-bit count
  of nanoseconds.  The statistics are \<open>int64\<close>, the round-robin index \<open>uint64\<close>.
\<close>

type_synonym time = int
type_synonym duration = "64 word"

definition zeroTime :: time where
  "zeroTime = - 62135596800 * 1000000000"

definition time_Add :: "time \<Rightarrow> duration \<Rightarrow> time" where
  "time_Add t d = t + sint d"

definition time_After :: "time \<Rightarrow> time \<Rightarrow> bool" where
  "time_After t u = (u < t)"

text \<open>\<open>Time.Sub\<close> saturates at the ends of the \<open>Duration\<close> range.\<close>

definition time_Sub :: "time \<Rightarrow> time \<Rightarrow> duration" where
  "time_Sub t u =
     (if t - u > 2 ^ 63 - 1 then word_of_int (2 ^ 63 - 1)
      else if t - u < - (2 ^ 63) then word_of_int (- (2 ^ 63))
      else word_of_int (t - u))"

record cacheItem =
  index :: "64 word"
  key :: cacheKey
  tags :: "string list"
  addrs :: "string list"
  bytes :: "64 word"
  ttl :: time
  err :: "error option"
  ready :: bool

text \<open>
  \<open>newCacheItem\<close> receives the tags and does not store them: the entry's \<open>tags\<close> stay
  \<open>nil\<close>.  \<open>ready\<close> is the channel, \<open>False\<close> while it is open.
\<close>

definition newCacheItem :: "cacheKey \<Rightarrow> string list \<Rightarrow> cacheItem" where
  "newCacheItem k tgs =
     \<lparr>index = 0, key = k, tags = [], addrs = [], bytes = 0, ttl = zeroTime,
      err = None, ready = False\<rparr>"

text \<open>\<open>unsafe.Sizeof\<close> of a string header, a slice header and a \<open>cacheItem\<close> (64-bit).\<close>

definition sizeof_string :: "64 word" where "sizeof_string = 16"
definition sizeof_slice :: "64 word" where "sizeof_slice = 24"
definition sizeof_cacheItem :: "64 word" where "sizeof_cacheItem = 144"

definition sizeofString :: "string \<Rightarrow> 64 word" where
  "sizeofString s = sizeof_string + of_nat (length s)"

fun sizeofStrings_loop :: "64 word \<Rightarrow> string list \<Rightarrow> 64 word" where
  "sizeofStrings_loop sz [] = sz"
| "sizeofStrings_loop sz (x # xs) = sizeofStrings_loop (sz + sizeofString x) xs"

definition sizeofStrings :: "string list \<Rightarrow> 64 word" where
  "sizeofStrings s = sizeofStrings_loop sizeof_slice s"

text \<open>
  The backend: \<open>Registry.Lookup(ctx, name, tags...)\<close> returns addresses, a validity
  duration and an error.
\<close>

type_synonym Registry = "string \<Rightarrow> string list \<Rightarrow> string list \<times> duration \<times> error option"

text \<open>
  The cache.  Entries live in \<open>heap\<close>; a \<open>*list.Element\<close> (and the \<open>*cacheItem\<close> it
  holds) is the position of the entry there, so that \<open>cache.items[key] == elem\<close> compares
  pointers as the code does.  \<open>queue\<close> has its front at the head.  \<open>items\<close> is the map as
  an association list.  The \<open>Registry\<close> field is an argument of the functions below.
\<close>

record Cache =
  MinTTL :: duration
  MaxTTL :: duration
  MaxBytes :: "64 word"
  items :: "(cacheKey \<times> nat) list"
  queue :: "nat list"
  heap :: "cacheItem list"
  bytes :: "64 word"
  size' :: "64 word"
  hits :: "64 word"
  misses :: "64 word"
  evictions :: "64 word"

definition newCache :: "duration \<Rightarrow> duration \<Rightarrow> 64 word \<Rightarrow> Cache" where
  "newCache minT maxT maxB =
     \<lparr>MinTTL = minT, MaxTTL = maxT, MaxBytes = maxB, items = [], queue = [], heap = [],
      bytes = 0, size' = 0, hits = 0, misses = 0, evictions = 0\<rparr>"

record CacheStats =
  Bytes :: "64 word"
  Size :: "64 word"
  Hits :: "64 word"
  Misses :: "64 word"
  Evictions :: "64 word"

definition Stats :: "Cache \<Rightarrow> CacheStats" where
  "Stats cache =
     \<lparr>Bytes = Cache.bytes cache, Size = size' cache, Hits = hits cache,
      Misses = misses cache, Evictions = evictions cache\<rparr>"

definition maxBytes :: "Cache \<Rightarrow> 64 word" where
  "maxBytes cache = (if 0 <s MaxBytes cache then MaxBytes cache else 1024 * 1024)"

definition minTTL :: "Cache \<Rightarrow> duration" where
  "minTTL cache = (if 0 <s MinTTL cache then MinTTL cache else 0)"

definition maxTTL :: "Cache \<Rightarrow> duration" where
  "maxTTL cache = (if 0 <s MaxTTL cache then MaxTTL cache else word_of_int (2 ^ 63 - 1))"

subsection \<open>The background fetch: \<open>cacheItem.lookup\<close>\<close>

text \<open>
  What the caller cannot decide is an input: the permutation drawn by \<open>rand.Perm\<close>, the two
  readings of the clock, and whether \<open>ctx.Done()\<close> wins the \<open>select\<close> (then with which
  \<open>ctx.Err()\<close>).
\<close>

record env =
  perm :: "nat list"
  fetched_at :: time
  checked_at :: time
  ctx_err :: "error option"

definition item_lookup ::
  "Registry \<Rightarrow> duration \<Rightarrow> duration \<Rightarrow> nat list \<Rightarrow> time \<Rightarrow> cacheItem \<Rightarrow> cacheItem" where
  "item_lookup r minT maxT p now item =
     (case r (name (key item)) (cacheItem.tags item) of (as, t0, e) \<Rightarrow>
        let t1 = (if t0 <s minT then minT else t0);
            t2 = (if maxT <s t1 then maxT else t1)
        in item\<lparr>cacheItem.bytes :=
               sizeof_cacheItem + sizeofStrings as + sizeofString (name (key item))
                 + sizeofString (cacheKey.tags (key item)) + sizeofStrings (cacheItem.tags item),
             addrs := shuffledStrings as p,
             ttl := time_Add now t2,
             err := e,
             ready := True\<rparr>)"

text \<open>\<open>go item.lookup(cache.Registry, cache.minTTL(), cache.maxTTL())\<close> on the entry at \<open>elem\<close>,
  with the permutation it draws and the clock it reads.\<close>

definition fetch :: "Registry \<Rightarrow> nat list \<Rightarrow> time \<Rightarrow> Cache \<Rightarrow> nat \<Rightarrow> Cache" where
  "fetch r p now cache elem =
     cache\<lparr>heap := (heap cache)
        [elem := item_lookup r (minTTL cache) (maxTTL cache) p now (heap cache ! elem)]\<rparr>"

subsection \<open>The shared lookup algorithm: \<open>Cache.lookup\<close>\<close>

text \<open>
  The operations of \<open>container/list\<close> that the cache uses.  \<open>MoveToFront\<close> and
  \<open>Remove\<close> leave a list alone that does not hold the element.
\<close>

definition PushFront :: "nat \<Rightarrow> nat list \<Rightarrow> nat list" where
  "PushFront e q = e # q"

definition MoveToFront :: "nat \<Rightarrow> nat list \<Rightarrow> nat list" where
  "MoveToFront e q = (if e \<in> set q then e # remove1 e q else q)"

definition Remove :: "nat \<Rightarrow> nat list \<Rightarrow> nat list" where
  "Remove e q = remove1 e q"

text \<open>
  The first locked section: a hit moves the element to the front of the queue, a miss
  allocates a pending entry, pushes it to the front and stores it in the map.  Returns the
  cache, the element and \<open>hit\<close>.
\<close>

definition enter :: "Cache \<Rightarrow> cacheKey \<Rightarrow> string list \<Rightarrow> Cache \<times> nat \<times> bool" where
  "enter cache k tgs =
     (case map_of (items cache) k of
        Some elem \<Rightarrow>
          (cache\<lparr>queue := MoveToFront elem (queue cache)\<rparr>, elem, True)
      | None \<Rightarrow>
          (let elem = length (heap cache)
           in (cache\<lparr>heap := heap cache @ [newCacheItem k tgs],
                      queue := PushFront elem (queue cache),
                      items := AList.update k elem (items cache)\<rparr>,
               elem, False)))"

text \<open>
  The staleness check once the entry is ready: past the expiry, the entry is removed if
  the map still holds this very element, and the three counters are adjusted.  The second
  component is \<open>True\<close> where the code says \<open>continue\<close>.
\<close>

definition expire :: "time \<Rightarrow> Cache \<Rightarrow> cacheKey \<Rightarrow> nat \<Rightarrow> bool \<Rightarrow> Cache \<times> bool" where
  "expire now cache k elem hit =
     (let item = heap cache ! elem
      in if time_After now (ttl item) then
           (let evict = (map_of (items cache) k = Some elem)
            in if evict then
                 (cache\<lparr>queue := Remove elem (queue cache),
                         items := AList.delete k (items cache),
                         bytes := Cache.bytes cache - cacheItem.bytes item,
                         size' := size' cache - 1,
                         evictions := evictions cache + 1\<rparr>,
                  hit)
               else (cache, False))
         else (cache, False))"

text \<open>
  The budget loop \<open>for bytes > maxBytes\<close>, with the local variable \<open>bytes\<close> as \<open>b\<close>.
  \<open>None\<close> is the nil dereference of \<open>cache.queue.Back()\<close> on an empty queue.
\<close>

function evict_oldest :: "64 word \<Rightarrow> 64 word \<Rightarrow> Cache \<Rightarrow> Cache option" where
  "evict_oldest maxB b cache =
     (if maxB <s b then
        (if items cache = [] then Some cache
         else if queue cache = [] then None
         else
           (let oldestElem = last (queue cache);
                oldestItem = heap cache ! oldestElem;
                b' = Cache.bytes cache - cacheItem.bytes oldestItem
            in evict_oldest maxB b'
                 (cache\<lparr>queue := Remove oldestElem (queue cache),
                         items := AList.delete (key oldestItem) (items cache),
                         bytes := b',
                         size' := size' cache - 1,
                         evictions := evictions cache + 1\<rparr>)))
      else Some cache)"
  by pat_completeness auto
termination
  by (relation "measure (\<lambda>(maxB, b, cache). length (queue cache))")
     (auto simp: Remove_def length_remove1)

declare evict_oldest.simps [simp del]

text \<open>The statistics update after the staleness check, and the budget loop on a miss.\<close>

definition account :: "Cache \<Rightarrow> nat \<Rightarrow> bool \<Rightarrow> Cache option" where
  "account cache elem hit =
     (if hit then Some (cache\<lparr>hits := hits cache + 1\<rparr>)
      else
        (let item = heap cache ! elem;
             b = Cache.bytes cache + cacheItem.bytes item
         in evict_oldest (maxBytes cache) b
              (cache\<lparr>size' := size' cache + 1, misses := misses cache + 1, bytes := b\<rparr>)))"

text \<open>
  What \<open>Cache.lookup\<close> returns: \<open>&item.index\<close> (the element, \<open>None\<close> for \<open>nil\<close>), the
  addresses, the expiry and the error.
\<close>

type_synonym lookup_result = "nat option \<times> string list \<times> time \<times> error option"

text \<open>
  The \<open>for\<close> loop of \<open>Cache.lookup\<close> run by one caller with no other caller in between:
  the fetch it launched has returned when \<open>item.ready\<close> is read.  Iteration \<open>i\<close> takes its
  inputs from \<open>envs i\<close>.  \<open>None\<close> is a panic.
\<close>

function lookup_loop ::
  "Registry \<Rightarrow> (nat \<Rightarrow> env) \<Rightarrow> nat \<Rightarrow> Cache \<Rightarrow> cacheKey \<Rightarrow> string list
     \<Rightarrow> (Cache \<times> lookup_result) option" where
  "lookup_loop r envs i cache k tgs =
     (case enter cache k tgs of (c1, elem, hit) \<Rightarrow>
        (let en = envs i;
             c2 = (if \<not> hit then fetch r (perm en) (fetched_at en) c1 elem else c1)
         in case ctx_err en of
              Some e \<Rightarrow> Some (c2, (None, [], zeroTime, Some e))
            | None \<Rightarrow>
                (case expire (checked_at en) c2 k elem hit of (c3, again) \<Rightarrow>
                   if again then lookup_loop r envs (Suc i) c3 k tgs
                   else
                     (case account c3 elem hit of
                        None \<Rightarrow> None
                      | Some c4 \<Rightarrow>
                          (let item = heap c4 ! elem
                           in Some (c4, (Some elem, addrs item, ttl item, err item)))))))"
  by pat_completeness auto
termination
proof (relation "measure (\<lambda>(r, envs, i, cache, k, tgs).
                   if map_of (items cache) k = None then 0 else 1)")
  show "wf (measure (\<lambda>(r, envs, i, cache, k, tgs).
                   if map_of (items cache) k = None then 0 else (1::nat)))"
    by simp
next
  fix r :: Registry and envs :: "nat \<Rightarrow> env" and i cache k tgs x1 x2 x1a x2a xa xb x2b x1b x2c
  assume "(x1, x2) = enter cache k tgs" and "(x1a, x2a) = x2"
    and "xb = (if \<not> x2a then fetch r (perm xa) (fetched_at xa) x1 x1a else x1)"
    and "(x1b, x2c) = expire (checked_at xa) xb k x1a x2a" and "x2c"
  then show "((r, envs, Suc i, x1b, k, tgs), (r, envs, i, cache, k, tgs))
      \<in> measure (\<lambda>(r, envs, i, cache, k, tgs). if map_of (items cache) k = None then 0 else 1)"
    by (auto simp: enter_def expire_def Let_def fetch_def AList.delete_conv
          split: option.splits if_splits)
qed

declare lookup_loop.simps [simp del]

text \<open>\<open>Cache.lookup\<close>: the tags are normalised and the key computed once, before the loop.\<close>

definition lookup ::
  "Registry \<Rightarrow> (nat \<Rightarrow> env) \<Rightarrow> Cache \<Rightarrow> string \<Rightarrow> string list
     \<Rightarrow> (Cache \<times> lookup_result) option" where
  "lookup r envs cache nm tgs =
     (let tgs' = sortedStrings tgs;
          k = makeCacheKey nm tgs'
      in lookup_loop r envs 0 cache k tgs')"

subsection \<open>\<open>Cache.Resolve\<close> and \<open>Cache.Lookup\<close>\<close>

text \<open>
  \<open>Resolve\<close> returns the error (\<open>Inl\<close>) or the chosen address.  \<open>atomic.AddUint64\<close>
  stores and returns the incremented index; the remainder is taken in \<open>uint64\<close>.
\<close>

definition Resolve ::
  "Registry \<Rightarrow> (nat \<Rightarrow> env) \<Rightarrow> Cache \<Rightarrow> string \<Rightarrow> (Cache \<times> (error + string)) option" where
  "Resolve r envs cache nm =
     (case lookup r envs cache nm [] of
        None \<Rightarrow> None
      | Some (c1, (idx, as, deadline, er)) \<Rightarrow>
          (case er of
             Some e \<Rightarrow> Some (c1, Inl e)
           | None \<Rightarrow>
               (case idx of
                  None \<Rightarrow> None
                | Some p \<Rightarrow>
                    (let i = index (heap c1 ! p) + 1;
                         c2 = c1\<lparr>heap := (heap c1)[p := (heap c1 ! p)\<lparr>index := i\<rparr>]\<rparr>;
                         n = (word_of_nat (length as) :: 64 word)
                     in if n = 0 then Some (c2, Inl (CacheError nm))
                        else Some (c2, Inr (as ! unat (i mod n)))))))"

text \<open>\<open>Lookup\<close> reads the clock once more, as \<open>now\<close>.\<close>

definition Lookup ::
  "Registry \<Rightarrow> (nat \<Rightarrow> env) \<Rightarrow> time \<Rightarrow> Cache \<Rightarrow> string \<Rightarrow> string list
     \<Rightarrow> (Cache \<times> (error + string list \<times> duration)) option" where
  "Lookup r envs now cache nm tgs =
     (case lookup r envs cache nm tgs of
        None \<Rightarrow> None
      | Some (c1, (idx, as, deadline, er)) \<Rightarrow>
          (case er of
             Some e \<Rightarrow> Some (c1, Inl e)
           | None \<Rightarrow>
               (let t = (if \<not> time_After now deadline then time_Sub deadline now else 0)
                in Some (c1, Inr (copyStrings as, t)))))"

subsection \<open>Sequences of calls\<close>

datatype call =
    CallResolve string "nat \<Rightarrow> env"
  | CallLookup string "string list" "nat \<Rightarrow> env" time

fun run_call :: "Registry \<Rightarrow> Cache \<Rightarrow> call \<Rightarrow> Cache option" where
  "run_call r cache (CallResolve nm envs) = map_option fst (Resolve r envs cache nm)"
| "run_call r cache (CallLookup nm tgs envs now) = map_option fst (Lookup r envs now cache nm tgs)"

fun run_calls :: "Registry \<Rightarrow> Cache \<Rightarrow> call list \<Rightarrow> Cache option" where
  "run_calls r cache [] = Some cache"
| "run_calls r cache (c # cs) =
     (case run_call r cache c of None \<Rightarrow> None | Some cache' \<Rightarrow> run_calls r cache' cs)"

subsection \<open>Well-formed cache states\<close>

text \<open>
  The map and the queue hold the same elements, each once, every element is allocated, and
  an element is stored under the key of its entry.
\<close>

definition wf_cache :: "Cache \<Rightarrow> bool" where
  "wf_cache cache \<longleftrightarrow>
     distinct (map fst (items cache)) \<and>
     distinct (queue cache) \<and>
     set (queue cache) = snd ` set (items cache) \<and>
     (\<forall>(k, e) \<in> set (items cache). e < length (heap cache) \<and> key (heap cache ! e) = k)"

section \<open>Concurrent callers of \<open>Cache.lookup\<close>\<close>

text \<open>
  Several goroutines inside \<open>Cache.lookup\<close> at once, and the fetches they have launched.
  A caller is at one of four places of the loop, or has returned, or has panicked:
  before the first locked section; at the \<open>select\<close>, holding the element and \<open>hit\<close>;
  before the statistics update (the entry was ready and the staleness check is done);
  at the head of the budget loop, holding the local \<open>bytes\<close>.
  One step of a caller is one locked section together with the atomic counter updates
  that follow it; a step of a fetch is the whole of \<open>cacheItem.lookup\<close>.  The entry of a
  fetch that has not run is the one whose \<open>ready\<close> channel is still open.
\<close>

datatype pc =
    AtLock
  | AtSelect nat bool
  | AtStats nat bool
  | AtBudget nat "64 word"
  | Returned lookup_result
  | Panicked

record caller =
  ckey :: cacheKey
  ctags :: "string list"
  pc :: pc

text \<open>
  What a caller may do next: take the lock, see \<open>ctx.Done()\<close> win the \<open>select\<close> (with
  \<open>ctx.Err()\<close>), see \<open>item.ready\<close> win it and read the clock, update the statistics, go
  once round the budget loop.
\<close>

datatype action = Lock | Cancel error | Wake time | Count | Evict

text \<open>What \<open>Cache.lookup\<close> returns for the entry at \<open>elem\<close>.\<close>

definition result :: "Cache \<Rightarrow> nat \<Rightarrow> lookup_result" where
  "result cache elem =
     (let item = heap cache ! elem
      in (Some elem, addrs item, ttl item, err item))"

definition update_stats :: "Cache \<Rightarrow> nat \<Rightarrow> bool \<Rightarrow> Cache \<times> pc" where
  "update_stats cache elem hit =
     (if hit then (cache\<lparr>hits := hits cache + 1\<rparr>, Returned (result cache elem))
      else
        (let item = heap cache ! elem;
             b = Cache.bytes cache + cacheItem.bytes item
         in (cache\<lparr>size' := size' cache + 1, misses := misses cache + 1, bytes := b\<rparr>,
             AtBudget elem b)))"

definition evict_turn :: "Cache \<Rightarrow> nat \<Rightarrow> 64 word \<Rightarrow> Cache \<times> pc" where
  "evict_turn cache elem b =
     (if maxBytes cache <s b then
        (if items cache = [] then (cache, Returned (result cache elem))
         else if queue cache = [] then (cache, Panicked)
         else
           (let oldestElem = last (queue cache);
                oldestItem = heap cache ! oldestElem;
                b' = Cache.bytes cache - cacheItem.bytes oldestItem
            in (cache\<lparr>queue := Remove oldestElem (queue cache),
                       items := AList.delete (key oldestItem) (items cache),
                       bytes := b',
                       size' := size' cache - 1,
                       evictions := evictions cache + 1\<rparr>,
                AtBudget elem b')))
      else (cache, Returned (result cache elem)))"

text \<open>
  One step of a caller with key \<open>k\<close>; \<open>None\<close> when the caller is not at the place of the
  action, or waits for an entry that is not ready.
\<close>

fun caller_step ::
  "Cache \<Rightarrow> cacheKey \<Rightarrow> string list \<Rightarrow> pc \<Rightarrow> action \<Rightarrow> (Cache \<times> pc) option" where
  "caller_step cache k tgs AtLock Lock =
     (case enter cache k tgs of (c1, elem, hit) \<Rightarrow> Some (c1, AtSelect elem hit))"
| "caller_step cache k tgs (AtSelect elem hit) (Cancel x) =
     Some (cache, Returned (None, [], zeroTime, Some x))"
| "caller_step cache k tgs (AtSelect elem hit) (Wake now) =
     (if ready (heap cache ! elem) then
        (case expire now cache k elem hit of
           (c3, again) \<Rightarrow> Some (c3, if again then AtLock else AtStats elem hit))
      else None)"
| "caller_step cache k tgs (AtStats elem hit) Count = Some (update_stats cache elem hit)"
| "caller_step cache k tgs (AtBudget elem b) Evict = Some (evict_turn cache elem b)"
| "caller_step cache k tgs _ _ = None"

text \<open>
  The system: the cache, the callers, and as a record of what happened the elements whose
  fetch has called the backend, in order.
\<close>

record system =
  the_cache :: Cache
  callers :: "caller list"
  backend_calls :: "nat list"

datatype event =
    Caller nat action
  | Fetch nat "nat list" time

fun step :: "Registry \<Rightarrow> system \<Rightarrow> event \<Rightarrow> system" where
  "step r s (Caller n a) =
     (if n < length (callers s) then
        (case caller_step (the_cache s) (ckey (callers s ! n)) (ctags (callers s ! n))
                (pc (callers s ! n)) a of
           None \<Rightarrow> s
         | Some (c', pc') \<Rightarrow>
             s\<lparr>the_cache := c', callers := (callers s)[n := (callers s ! n)\<lparr>pc := pc'\<rparr>]\<rparr>)
      else s)"
| "step r s (Fetch e p now) =
     (if e < length (heap (the_cache s)) \<and> \<not> ready (heap (the_cache s) ! e) then
        s\<lparr>the_cache := fetch r p now (the_cache s) e, backend_calls := backend_calls s @ [e]\<rparr>
      else s)"

fun run :: "Registry \<Rightarrow> system \<Rightarrow> event list \<Rightarrow> system" where
  "run r s [] = s"
| "run r s (ev # evs) = run r (step r s ev) evs"

text \<open>Callers about to look up the given names and tags in the given cache.\<close>

definition start :: "Cache \<Rightarrow> (string \<times> string list) list \<Rightarrow> system" where
  "start c reqs =
     \<lparr>the_cache = c,
      callers = map (\<lambda>(nm, tgs). \<lparr>ckey = makeCacheKey nm (sortedStrings tgs),
                                  ctags = sortedStrings tgs, pc = AtLock\<rparr>) reqs,
      backend_calls = []\<rparr>"

subsection \<open>The registry of the tests\<close>

text \<open>
  \<open>registry\<close> of the cache tests: a map from names to addresses, answering with a validity
  of one second.  The fetch calls it with \<open>context.Background()\<close>, whose \<open>Err()\<close> is nil.
\<close>

definition Second :: duration where
  "Second = 1000000000"

definition registry :: "(string \<rightharpoonup> string list) \<Rightarrow> Registry" where
  "registry m nm tgs =
     (case m nm of
        None \<Rightarrow> ([], Second, Some Unreachable)
      | Some as \<Rightarrow> (copyStrings as, Second, None))"

subsection \<open>Notions used in the statements\<close>

text \<open>
  The entry that a miss on \<open>k\<close> has fetched, and the cache when the caller that missed
  reaches the staleness check: the entry is allocated, at the front of the queue, in the
  map, and filled by the fetch.
\<close>

definition fetched_item :: "Registry \<Rightarrow> env \<Rightarrow> Cache \<Rightarrow> cacheKey \<Rightarrow> cacheItem" where
  "fetched_item r en c k =
     item_lookup r (minTTL c) (maxTTL c) (perm en) (fetched_at en) (newCacheItem k [])"

definition missed :: "Registry \<Rightarrow> env \<Rightarrow> Cache \<Rightarrow> cacheKey \<Rightarrow> Cache" where
  "missed r en c k =
     c\<lparr>heap := heap c @ [fetched_item r en c k],
       queue := PushFront (length (heap c)) (queue c),
       items := AList.update k (length (heap c)) (items c)\<rparr>"

text \<open>
  Removing the entry at the back of the recency queue, in the words of the specification:
  the last element leaves the queue, every binding of that element leaves the map, size
  and bytes go down and evictions go up.
\<close>

definition remove_back :: "Cache \<Rightarrow> Cache" where
  "remove_back c =
     (let e = last (queue c)
      in c\<lparr>queue := butlast (queue c),
           items := filter (\<lambda>(k, e'). e' \<noteq> e) (items c),
           bytes := Cache.bytes c - cacheItem.bytes (heap c ! e),
           size' := size' c - 1,
           evictions := evictions c + 1\<rparr>)"

text \<open>Consecutive calls of \<open>Resolve\<close> on one name, with the answers in order.\<close>

fun Resolves ::
  "Registry \<Rightarrow> Cache \<Rightarrow> string \<Rightarrow> (nat \<Rightarrow> env) list
     \<Rightarrow> (Cache \<times> (error + string) list) option" where
  "Resolves r cache nm [] = Some (cache, [])"
| "Resolves r cache nm (envs # rest) =
     (case Resolve r envs cache nm of
        None \<Rightarrow> None
      | Some (c1, x) \<Rightarrow>
          (case Resolves r c1 nm rest of
             None \<Rightarrow> None
           | Some (c2, xs) \<Rightarrow> Some (c2, x # xs)))"

text \<open>The statistics invariant of the cache tests.\<close>

definition stats_ok :: "Cache \<Rightarrow> bool" where
  "stats_ok c \<longleftrightarrow> evictions c + size' c = misses c"

text \<open>A counter that has been incremented at most \<open>n\<close> times between two readings.\<close>

definition grows :: "nat \<Rightarrow> 64 word \<Rightarrow> 64 word \<Rightarrow> bool" where
  "grows n x y \<longleftrightarrow> (\<exists>m. m \<le> n \<and> y = x + of_nat m)"

text \<open>
  The three cumulative counters between two states: hits and misses incremented at most
  once, evictions at most \<open>n\<close> times.
\<close>

definition counted :: "nat \<Rightarrow> Cache \<Rightarrow> Cache \<Rightarrow> bool" where
  "counted n c c' \<longleftrightarrow>
     grows 1 (hits c) (hits c') \<and> grows 1 (misses c) (misses c') \<and>
     grows n (evictions c) (evictions c')"

subsection \<open>A fixture: one service with three addresses\<close>

text \<open>
  The test registry with the service \<open>svc\<close> at three addresses, a caller whose clock reads
  stay at 0 and whose shuffle is the identity, and the cache that holds the entry of
  \<open>svc\<close> with a given round-robin index and a given number of hits.
\<close>

definition svc_registry :: Registry where
  "svc_registry = registry [''svc'' \<mapsto> [''a'', ''b'', ''c'']]"

definition svc_env :: "nat \<Rightarrow> env" where
  "svc_env = (\<lambda>i. \<lparr>perm = [0, 1, 2], fetched_at = 0, checked_at = 0, ctx_err = None\<rparr>)"

definition svc_cache :: "64 word \<Rightarrow> 64 word \<Rightarrow> Cache" where
  "svc_cache idx h =
     \<lparr>MinTTL = 0, MaxTTL = 0, MaxBytes = 0,
      items = [(makeCacheKey ''svc'' [], 0)], queue = [0],
      heap = [\<lparr>index = idx, key = makeCacheKey ''svc'' [], tags = [],
               addrs = [''a'', ''b'', ''c''], bytes = 278, ttl = 1000000000,
               err = None, ready = True\<rparr>],
      bytes = 278, size' = 1, hits = h, misses = 1, evictions = 0\<rparr>"

subsection \<open>Invariants of the concurrent system\<close>

text \<open>
  What a caller at a given place knows about the entry it holds: the entry is allocated
  under the caller's key; past the \<open>select\<close> it is ready; a caller that has returned an
  entry has returned its address list, expiry and error.
\<close>

fun caller_ok :: "Cache \<Rightarrow> cacheKey \<Rightarrow> pc \<Rightarrow> bool" where
  "caller_ok c k AtLock = True"
| "caller_ok c k (AtSelect e h) = (e < length (heap c) \<and> key (heap c ! e) = k)"
| "caller_ok c k (AtStats e h) =
     (e < length (heap c) \<and> key (heap c ! e) = k \<and> ready (heap c ! e))"
| "caller_ok c k (AtBudget e b) =
     (e < length (heap c) \<and> key (heap c ! e) = k \<and> ready (heap c ! e))"
| "caller_ok c k (Returned (None, as, d, er)) = True"
| "caller_ok c k (Returned (Some e, as, d, er)) =
     (e < length (heap c) \<and> key (heap c ! e) = k \<and> ready (heap c ! e) \<and>
      as = addrs (heap c ! e) \<and> d = ttl (heap c ! e) \<and> er = err (heap c ! e))"
| "caller_ok c k Panicked = False"

text \<open>
  An entry is pending as \<open>newCacheItem\<close> made it, or ready as the one fetch of it left it.
\<close>

definition entry_ok :: "Registry \<Rightarrow> Cache \<Rightarrow> cacheItem \<Rightarrow> bool" where
  "entry_ok r c it \<longleftrightarrow>
     (if ready it
      then (\<exists>p now. it = item_lookup r (minTTL c) (maxTTL c) p now (newCacheItem (key it) []))
      else it = newCacheItem (key it) [])"

definition sys_ok :: "Registry \<Rightarrow> system \<Rightarrow> bool" where
  "sys_ok r s \<longleftrightarrow>
     wf_cache (the_cache s) \<and>
     (\<forall>cl \<in> set (callers s). caller_ok (the_cache s) (ckey cl) (pc cl)) \<and>
     (\<forall>it \<in> set (heap (the_cache s)). entry_ok r (the_cache s) it) \<and>
     distinct (backend_calls s) \<and>
     set (backend_calls s) =
       {e. e < length (heap (the_cache s)) \<and> ready (heap (the_cache s) ! e)}"

text \<open>How a step may change the heap: allocate, or fill a pending entry.\<close>

definition heap_grows :: "Cache \<Rightarrow> Cache \<Rightarrow> bool" where
  "heap_grows c c' \<longleftrightarrow>
     length (heap c) \<le> length (heap c') \<and>
     (\<forall>e < length (heap c). key (heap c' ! e) = key (heap c ! e) \<and>
        (ready (heap c ! e) \<longrightarrow> heap c' ! e = heap c ! e))"

subsection \<open>Callers racing on one key\<close>

text \<open>
  A schedule in which no entry of the key \<open>k\<close> expires: every caller that wakes reads the
  clock at \<open>T\<close> at the latest, and every fetch sets an expiry of \<open>T\<close> at the earliest.
\<close>

fun timely :: "Registry \<Rightarrow> Cache \<Rightarrow> cacheKey \<Rightarrow> time \<Rightarrow> event \<Rightarrow> bool" where
  "timely r c k T (Caller n (Wake now)) = (now \<le> T)"
| "timely r c k T (Fetch e p now) =
     (T \<le> ttl (item_lookup r (minTTL c) (maxTTL c) p now (newCacheItem k [])))"
| "timely r c k T (Caller n a) = True"

text \<open>The byte footprint of the entry of \<open>k\<close> once fetched.\<close>

definition entry_bytes :: "Registry \<Rightarrow> Cache \<Rightarrow> cacheKey \<Rightarrow> 64 word" where
  "entry_bytes r c k =
     cacheItem.bytes (item_lookup r (minTTL c) (maxTTL c) [] 0 (newCacheItem k []))"

text \<open>A caller that created the entry and has not counted its miss yet.\<close>

fun misser :: "pc \<Rightarrow> bool" where
  "misser (AtSelect e hit) = (\<not> hit)"
| "misser (AtStats e hit) = (\<not> hit)"
| "misser p = False"

fun within_budget :: "Cache \<Rightarrow> pc \<Rightarrow> bool" where
  "within_budget c (AtBudget e b) = (\<not> maxBytes c <s b)"
| "within_budget c p = True"

text \<open>
  The invariant of callers racing on \<open>k\<close> in a cache that was empty, under a timely
  schedule and a budget that holds the entry: at most one entry exists, it stays in the
  map, and only its creator adds its bytes.
\<close>

definition sf_ok :: "Cache \<Rightarrow> cacheKey \<Rightarrow> time \<Rightarrow> system \<Rightarrow> bool" where
  "sf_ok c0 k T s \<longleftrightarrow>
     MinTTL (the_cache s) = MinTTL c0 \<and> MaxTTL (the_cache s) = MaxTTL c0 \<and>
     MaxBytes (the_cache s) = MaxBytes c0 \<and>
     (\<forall>cl \<in> set (callers s). ckey cl = k \<and> within_budget c0 (pc cl)) \<and>
     (heap (the_cache s) = [] \<longrightarrow>
        items (the_cache s) = [] \<and> Cache.bytes (the_cache s) = 0 \<and>
        (\<forall>cl \<in> set (callers s). pc cl = AtLock)) \<and>
     (heap (the_cache s) \<noteq> [] \<longrightarrow>
        length (heap (the_cache s)) = 1 \<and> map_of (items (the_cache s)) k = Some 0 \<and>
        (ready (heap (the_cache s) ! 0) \<longrightarrow> T \<le> ttl (heap (the_cache s) ! 0))) \<and>
     (\<forall>i < length (callers s). \<forall>j < length (callers s).
        misser (pc (callers s ! i)) \<and> misser (pc (callers s ! j)) \<longrightarrow> i = j) \<and>
     ((\<exists>cl \<in> set (callers s). misser (pc cl)) \<longrightarrow> Cache.bytes (the_cache s) = 0)"

subsection \<open>A fixture: three callers racing on \<open>svc\<close>\<close>

text \<open>
  The second caller takes the lock first and misses; the others hit the pending entry;
  the fetch returns; all three wake before the expiry, count, and the creator passes the
  budget loop.
\<close>

definition race_schedule :: "event list" where
  "race_schedule =
     [Caller 1 Lock, Caller 0 Lock, Fetch 0 [2, 1, 0] 0, Caller 2 Lock,
      Caller 0 (Wake 1), Caller 1 (Wake 2), Caller 2 (Wake 2),
      Caller 0 Count, Caller 1 Count, Caller 2 Count, Caller 1 Evict]"

definition race :: system where
  "race = run svc_registry
            (start (newCache 0 0 0) [(''svc'', []), (''svc'', []), (''svc'', [])])
            race_schedule"

subsection \<open>Touches and the recency order\<close>

text \<open>The keys of the entries in the recency queue, front to back, and the keys in the map.\<close>

definition queue_keys :: "Cache \<Rightarrow> cacheKey list" where
  "queue_keys c = map (\<lambda>e. key (heap c ! e)) (queue c)"

definition resident :: "Cache \<Rightarrow> cacheKey \<Rightarrow> bool" where
  "resident c k \<longleftrightarrow> map_of (items c) k \<noteq> None"

text \<open>
  A caller touches the entry of its key when it takes the lock at the head of the loop:
  there the entry is moved to the front of the queue, or a new one is pushed.  No other
  step moves an entry.  \<open>touches\<close> lists the keys touched along a run, the oldest touch
  first.
\<close>

fun touched :: "system \<Rightarrow> event \<Rightarrow> cacheKey list" where
  "touched s (Caller n Lock) =
     (if n < length (callers s) \<and> pc (callers s ! n) = AtLock
      then [ckey (callers s ! n)] else [])"
| "touched s ev = []"

fun touches :: "Registry \<Rightarrow> system \<Rightarrow> event list \<Rightarrow> cacheKey list" where
  "touches r s [] = []"
| "touches r s (ev # evs) = touched s ev @ touches r (step r s ev) evs"

text \<open>
  The keys of a list of touches, each once, in the order of their last touch, the most
  recently touched first: the last one is the least recently touched.
\<close>

definition by_recency :: "cacheKey list \<Rightarrow> cacheKey list" where
  "by_recency log = rev (remdups log)"

text \<open>The queue holds the resident keys in the order of their last touch.\<close>

definition lru_order :: "cacheKey list \<Rightarrow> Cache \<Rightarrow> bool" where
  "lru_order log c \<longleftrightarrow> queue_keys c = filter (resident c) (by_recency log)"

subsection \<open>Entries that no miss accounts for\<close>





text \<open>
  The ledger of the entries: every entry ever created is resident or has been counted as
  an eviction.
\<close>

definition ledger :: "Cache \<Rightarrow> bool" where
  "ledger c \<longleftrightarrow>
     length (items c) \<le> length (heap c) \<and>
     evictions c + of_nat (length (items c)) = of_nat (length (heap c))"



subsection \<open>A fixture: three services of one size\<close>

text \<open>
  Three services with one address each, so that their entries have the same byte
  footprint; a caller whose clock reads stay at 0, and one whose context is cancelled.
\<close>

definition trio_registry :: Registry where
  "trio_registry = registry [''s1'' \<mapsto> [''a''], ''s2'' \<mapsto> [''b''], ''s3'' \<mapsto> [''c'']]"




text \<open>
  Four callers on a cache whose budget holds two entries: misses on \<open>s1\<close> and \<open>s2\<close>, a hit
  on \<open>s1\<close>, and a miss on \<open>s3\<close> that stands before its statistics update.
\<close>

definition lru_schedule :: "event list" where
  "lru_schedule =
     [Caller 0 Lock, Fetch 0 [0] 0, Caller 0 (Wake 0), Caller 0 Count, Caller 0 Evict,
      Caller 1 Lock, Fetch 1 [0] 0, Caller 1 (Wake 0), Caller 1 Count, Caller 1 Evict,
      Caller 2 Lock, Caller 2 (Wake 0), Caller 2 Count,
      Caller 3 Lock, Fetch 2 [0] 0, Caller 3 (Wake 0)]"

definition lru_requests :: "(string \<times> string list) list" where
  "lru_requests = [(''s1'', []), (''s2'', []), (''s1'', []), (''s3'', [])]"

definition lru_state :: system where
  "lru_state = run trio_registry (start (newCache 0 0 500) lru_requests) lru_schedule"




section \<open>Properties\<close>

lemma sortedStrings_sort: "sortedStrings s = sort s"
proof (cases s)
  case Nil
  then show ?thesis by (simp add: sortedStrings_def copyStrings_def)
next
  case (Cons x xs)
  then show ?thesis
    by (cases xs) (simp_all add: sortedStrings_def copyStrings_def)
qed

lemma sortedStrings_mset_cong:
  assumes "mset t1 = mset t2"
  shows "sortedStrings t1 = sortedStrings t2"
proof -
  have "mset (sort t2) = mset t1" using assms by simp
  then have "sort t1 = sort t2"
    by (rule properties_for_sort) simp
  then show ?thesis by (simp add: sortedStrings_sort)
qed

lemma enter_tags_irrelevant: "enter cache k t1 = enter cache k t2"
  by (simp add: enter_def newCacheItem_def split: option.splits)

lemma lookup_loop_tags_irrelevant:
  "lookup_loop r envs i cache k t1 = lookup_loop r envs i cache k t2"
proof (induction r envs i cache k t1 rule: lookup_loop.induct)
  case (1 r envs i cache k tgs)
  show ?case
    apply (subst lookup_loop.simps)
    apply (subst (2) lookup_loop.simps)
    apply (simp only: enter_tags_irrelevant [of cache k tgs t2])
    apply (auto simp: Let_def split: prod.splits option.splits)
    using 1 apply (auto simp: enter_tags_irrelevant [of cache k tgs t2])
    done
qed

text \<open>
  Claim C8.  Tag lists that are permutations of each other give the same cache key, for
  every name, and \<open>Cache.lookup\<close> behaves the same on both: same cache afterwards, same
  result, so the one hits exactly where the other does.
\<close>

theorem permuted_tags_same_key:
  assumes "mset tags1 = mset tags2"
  shows "makeCacheKey nm (sortedStrings tags1) = makeCacheKey nm (sortedStrings tags2) \<and>
         lookup r envs cache nm tags1 = lookup r envs cache nm tags2"
  using sortedStrings_mset_cong [OF assms] by (simp add: lookup_def)

text \<open>
  Claim C10.  The tag lists \<open>["a,b"]\<close> and \<open>["a", "b"]\<close> are not permutations of each
  other and have the same cache key, for every name; \<open>Cache.lookup\<close> cannot tell them
  apart.  In the run of the last line, a lookup with the first list and then one with the
  second leave one entry allocated, one miss (one call of the backend) and one hit.
\<close>

theorem comma_tags_collide:
  "mset [''a,b''] \<noteq> mset [''a'', ''b''] \<and>
   makeCacheKey nm (sortedStrings [''a,b'']) = makeCacheKey nm (sortedStrings [''a'', ''b'']) \<and>
   lookup r envs cache nm [''a,b''] = lookup r envs cache nm [''a'', ''b''] \<and>
   map_option (\<lambda>c. (length (heap c), misses c, hits c))
     (run_calls (registry [''svc'' \<mapsto> [''x'']]) (newCache 0 0 0)
        [CallLookup ''svc'' [''a,b'']
           (\<lambda>i. \<lparr>perm = [0], fetched_at = 0, checked_at = 0, ctx_err = None\<rparr>) 0,
         CallLookup ''svc'' [''a'', ''b'']
           (\<lambda>i. \<lparr>perm = [0], fetched_at = 0, checked_at = 0, ctx_err = None\<rparr>) 0])
     = Some (1, 1, 1)"
proof -
  have k: "makeCacheKey nm (sortedStrings [''a,b'']) = makeCacheKey nm (sortedStrings [''a'', ''b''])"
    by (simp add: makeCacheKey_def sortedStrings_sort)
  have l: "lookup r envs cache nm [''a,b''] = lookup r envs cache nm [''a'', ''b'']"
    using k lookup_loop_tags_irrelevant [of r envs 0 cache _ "sortedStrings [''a,b'']" "sortedStrings [''a'', ''b'']"]
    by (simp add: lookup_def Let_def)
  have run: "map_option (\<lambda>c. (length (heap c), misses c, hits c))
     (run_calls (registry [''svc'' \<mapsto> [''x'']]) (newCache 0 0 0)
        [CallLookup ''svc'' [''a,b'']
           (\<lambda>i. \<lparr>perm = [0], fetched_at = 0, checked_at = 0, ctx_err = None\<rparr>) 0,
         CallLookup ''svc'' [''a'', ''b'']
           (\<lambda>i. \<lparr>perm = [0], fetched_at = 0, checked_at = 0, ctx_err = None\<rparr>) 0])
     = Some (1, 1, 1)"
    by code_simp
  show ?thesis using k l run by simp
qed

lemma update_fresh: "k \<notin> fst ` set al \<Longrightarrow> AList.update k v al = al @ [(k, v)]"
  by (induction al) auto

lemma set_delete: "set (AList.delete k al) = {p \<in> set al. fst p \<noteq> k}"
  by (auto simp: AList.delete_eq)

lemma wf_cacheD:
  assumes "wf_cache c"
  shows "distinct (map fst (items c))" "distinct (queue c)"
    "set (queue c) = snd ` set (items c)"
    "(k, e) \<in> set (items c) \<Longrightarrow> e < length (heap c)"
    "(k, e) \<in> set (items c) \<Longrightarrow> key (heap c ! e) = k"
  using assms by (auto simp: wf_cache_def)

lemma wf_map_of:
  assumes "wf_cache c"
  shows "map_of (items c) k = Some e \<longleftrightarrow> (k, e) \<in> set (items c)"
  using wf_cacheD(1) [OF assms] by simp

lemma wf_newCache: "wf_cache (newCache a b m)"
  by (simp add: wf_cache_def newCache_def)

text \<open>Removing the element \<open>e\<close> stored under \<open>k\<close> from the queue and the map.\<close>

lemma wf_remove:
  assumes wf: "wf_cache c" and mem: "(k, e) \<in> set (items c)"
    and q: "queue c' = Remove e (queue c)" and i: "items c' = AList.delete k (items c)"
    and h: "heap c' = heap c"
  shows "wf_cache c'"
proof -
  note d = wf_cacheD [OF wf]
  have uniq: "\<And>k' e'. (k', e') \<in> set (items c) \<Longrightarrow> e' = e \<longleftrightarrow> k' = k"
  proof -
    fix k' e' assume a: "(k', e') \<in> set (items c)"
    show "e' = e \<longleftrightarrow> k' = k"
    proof
      assume "e' = e"
      then show "k' = k" using d(5) [OF a] d(5) [OF mem] by simp
    next
      assume "k' = k"
      then show "e' = e" using a mem d(1) by (metis eq_key_imp_eq_value)
    qed
  qed
  have 1: "distinct (map fst (items c'))" using d(1) i by (simp add: distinct_delete)
  have 2: "distinct (queue c')" using d(2) q by (simp add: Remove_def)
  have 3: "set (queue c') = snd ` set (items c')"
  proof -
    have "set (queue c') = snd ` set (items c) - {e}" using q d(2) d(3) by (simp add: Remove_def)
    also have "\<dots> = snd ` {p \<in> set (items c). fst p \<noteq> k}"
      using uniq by force
    finally show ?thesis using i by (simp add: set_delete)
  qed
  have 4: "\<forall>(k, e) \<in> set (items c'). e < length (heap c') \<and> key (heap c' ! e) = k"
    using d(4) d(5) i h by (auto simp: set_delete)
  show ?thesis using 1 2 3 4 by (simp add: wf_cache_def)
qed

lemma wf_stats_irrelevant:
  assumes "wf_cache c" "items c' = items c" "queue c' = queue c" "heap c' = heap c"
  shows "wf_cache c'"
  using assms by (simp add: wf_cache_def)

lemma wf_enter: 
  assumes wf: "wf_cache c"
  shows "wf_cache (fst (enter c k t))"
proof (cases "map_of (items c) k")
  case None
  then have fresh: "k \<notin> fst ` set (items c)" by (simp add: map_of_eq_None_iff)
  note d = wf_cacheD [OF wf]
  have nq: "length (heap c) \<notin> set (queue c)"
    using d(3) d(4) by force
  have "\<forall>(k', e) \<in> set (items c). e < length (heap c) \<and> key (heap c ! e) = k'"
    using wf by (simp add: wf_cache_def)
  then show ?thesis
    using None fresh nq d(1,2,3)
    by (auto simp: enter_def wf_cache_def update_fresh Let_def nth_append newCacheItem_def
          PushFront_def)
next
  case (Some e)
  then have mem: "(k, e) \<in> set (items c)" by (rule map_of_SomeD)
  note d = wf_cacheD [OF wf]
  have "e \<in> set (queue c)" using d(3) mem by force
  then show ?thesis
    using Some wf by (auto simp: enter_def wf_cache_def MoveToFront_def)
qed

lemma enter_hit_iff: "snd (snd (enter c k t)) \<longleftrightarrow> map_of (items c) k \<noteq> None"
  by (auto simp: enter_def Let_def split: option.splits)

lemma wf_fetch:
  assumes wf: "wf_cache c"
  shows "wf_cache (fetch r p now c e)"
proof -
  have "key (item_lookup r a b p n it) = key it" for a b p n it
    by (simp add: item_lookup_def Let_def split: prod.splits)
  then have "key (heap (fetch r p now c e) ! j) = key (heap c ! j)" for j
    by (cases "j = e"; cases "e < length (heap c)") (simp_all add: fetch_def list_update_beyond)
  then show ?thesis using wf by (simp add: wf_cache_def fetch_def)
qed

lemma wf_expire:
  assumes wf: "wf_cache c"
  shows "wf_cache (fst (expire now c k e hit))"
proof (cases "time_After now (ttl (heap c ! e)) \<and> map_of (items c) k = Some e")
  case True
  then have mem: "(k, e) \<in> set (items c)" by (auto dest: map_of_SomeD)
  show ?thesis
    using True by (auto simp: expire_def Let_def intro!: wf_remove [OF wf mem])
next
  case False
  then show ?thesis using wf by (auto simp: expire_def Let_def)
qed

lemma Remove_last: "distinct q \<Longrightarrow> q \<noteq> [] \<Longrightarrow> Remove (last q) q = butlast q"
  by (induction q) (auto simp: Remove_def)

lemma wf_queue_empty_iff: "wf_cache c \<Longrightarrow> queue c = [] \<longleftrightarrow> items c = []"
  by (auto simp: wf_cache_def)

lemma wf_last_mem:
  assumes wf: "wf_cache c" and ne: "queue c \<noteq> []"
  shows "(key (heap c ! last (queue c)), last (queue c)) \<in> set (items c)"
proof -
  have "last (queue c) \<in> snd ` set (items c)"
    using wf_cacheD(3) [OF wf] ne last_in_set by blast
  then obtain k where m: "(k, last (queue c)) \<in> set (items c)" by force
  then show ?thesis using wf_cacheD(5) [OF wf m] by simp
qed

lemma evict_oldest_Some:
  "wf_cache c \<Longrightarrow> \<exists>c'. evict_oldest maxB b c = Some c' \<and> wf_cache c'"
proof (induction maxB b c rule: evict_oldest.induct)
  case (1 maxB b cache)
  show ?case
  proof (cases "maxB <s b \<and> items cache \<noteq> []")
    case False
    then show ?thesis using 1(2) by (auto simp: evict_oldest.simps)
  next
    case True
    then have ne: "queue cache \<noteq> []" using wf_queue_empty_iff [OF 1(2)] by simp
    let ?e = "last (queue cache)"
    let ?c' = "cache\<lparr>queue := Remove ?e (queue cache),
                         items := AList.delete (key (heap cache ! ?e)) (items cache),
                         bytes := Cache.bytes cache - cacheItem.bytes (heap cache ! ?e),
                         size' := size' cache - 1,
                         evictions := evictions cache + 1\<rparr>"
    have "wf_cache ?c'"
      by (rule wf_remove [OF 1(2) wf_last_mem [OF 1(2) ne]]) simp_all
    from 1(1) [OF _ _ _ refl refl refl this] True ne 
    show ?thesis
      by (subst evict_oldest.simps) (simp add: Let_def)
  qed
qed

lemma account_Some:
  assumes wf: "wf_cache c"
  shows "\<exists>c'. account c e hit = Some c' \<and> wf_cache c'"
proof (cases hit)
  case True
  then show ?thesis using wf by (simp add: account_def wf_cache_def)
next
  case False
  have "wf_cache (c\<lparr>size' := size' c + 1, misses := misses c + 1,
      bytes := Cache.bytes c + cacheItem.bytes (heap c ! e)\<rparr>)"
    using wf by (simp add: wf_cache_def)
  from evict_oldest_Some [OF this] False show ?thesis
    by (simp add: account_def Let_def)
qed


lemma lookup_loop_invariant:
  assumes pe: "\<And>c k t. P c \<Longrightarrow> P (fst (enter c k t))"
    and pf: "\<And>r p now c e. P c \<Longrightarrow> P (fetch r p now c e)"
    and px: "\<And>now c k e hit. P c \<Longrightarrow> P (fst (expire now c k e hit))"
    and pa: "\<And>c e hit c'. P c \<Longrightarrow> account c e hit = Some c' \<Longrightarrow> P c'"
  shows "P c \<Longrightarrow> lookup_loop r envs i c k t = Some (c', res) \<Longrightarrow> P c'"
proof (induction r envs i c k t rule: lookup_loop.induct)
  case (1 r envs i cache k tgs)
  obtain c1 elem hit where en: "enter cache k tgs = (c1, elem, hit)"
    by (cases "enter cache k tgs") auto
  define c2 where "c2 = (if \<not> hit then fetch r (perm (envs i)) (fetched_at (envs i)) c1 elem else c1)"
  obtain c3 again where ex: "expire (checked_at (envs i)) c2 k elem hit = (c3, again)"
    by (cases "expire (checked_at (envs i)) c2 k elem hit") auto
  have p1: "P c1" using pe [OF 1(2), of k tgs] en by simp
  have p2: "P c2" using p1 pf by (simp add: c2_def)
  have p3: "P c3" using px [OF p2, of "checked_at (envs i)" k elem hit] ex by simp
  show ?case
  proof (cases "ctx_err (envs i)")
    case (Some e)
    then show ?thesis using 1(3) en p2
      by (subst (asm) lookup_loop.simps) (auto simp: c2_def Let_def)
  next
    case None
    show ?thesis
    proof (cases again)
      case True
      have "lookup_loop r envs (Suc i) c3 k tgs = Some (c', res)"
        using 1(3) en ex None True
        by (subst (asm) lookup_loop.simps) (simp add: c2_def Let_def)
      from 1(1) [OF en [symmetric] refl refl c2_def None _ True p3 this] ex
      show ?thesis by (simp add: c2_def)
    next
      case False
      then show ?thesis using 1(3) en ex None pa [OF p3]
        by (subst (asm) lookup_loop.simps) (auto simp: c2_def Let_def split: option.splits)
    qed
  qed
qed

lemma enter_miss:
  "map_of (items c) k = None \<Longrightarrow>
   enter c k t = (c\<lparr>heap := heap c @ [newCacheItem k t], queue := PushFront (length (heap c)) (queue c),
                     items := AList.update k (length (heap c)) (items c)\<rparr>, length (heap c), False)"
  by (simp add: enter_def Let_def)

lemma enter_hit:
  "map_of (items c) k = Some e \<Longrightarrow>
   enter c k t = (c\<lparr>queue := MoveToFront e (queue c)\<rparr>, e, True)"
  by (simp add: enter_def)

lemma expire_fresh:
  "\<not> time_After now (ttl (heap c ! e)) \<Longrightarrow> expire now c k e hit = (c, False)"
  by (simp add: expire_def Let_def)

lemma expire_stale:
  "time_After now (ttl (heap c ! e)) \<Longrightarrow> map_of (items c) k = Some e \<Longrightarrow>
   expire now c k e hit =
     (c\<lparr>queue := Remove e (queue c), items := AList.delete k (items c),
        bytes := Cache.bytes c - cacheItem.bytes (heap c ! e),
        size' := size' c - 1, evictions := evictions c + 1\<rparr>, hit)"
  by (simp add: expire_def Let_def)

lemma fetch_enter_miss:
  "map_of (items c) k = None \<Longrightarrow>
   fetch r (perm en) (fetched_at en) (fst (enter c k t)) (length (heap c)) = missed r en c k"
  by (simp add: enter_miss fetch_def missed_def fetched_item_def minTTL_def maxTTL_def
        newCacheItem_def PushFront_def)

lemma missed_simps [simp]:
  "heap (missed r en c k) ! length (heap c) = fetched_item r en c k"
  "length (heap (missed r en c k)) = Suc (length (heap c))"
  "map_of (items (missed r en c k)) k = Some (length (heap c))"
  "maxBytes (missed r en c k) = maxBytes c"
  by (simp_all add: missed_def update_conv' maxBytes_def)

lemma lookup_loop_canceled:
  assumes "ctx_err (envs i) = Some x"
  shows "\<exists>c'. lookup_loop r envs i c k t = Some (c', (None, [], zeroTime, Some x))"
  using assms by (subst lookup_loop.simps) (simp add: Let_def split: prod.splits)

lemma lookup_loop_miss:
  assumes "map_of (items c) k = None" and "ctx_err (envs i) = None"
  shows "lookup_loop r envs i c k t =
     (case account (fst (expire (checked_at (envs i)) (missed r (envs i) c k) k (length (heap c)) False))
             (length (heap c)) False of
        None \<Rightarrow> None
      | Some c4 \<Rightarrow> Some (c4, (Some (length (heap c)), addrs (heap c4 ! length (heap c)),
                              ttl (heap c4 ! length (heap c)), err (heap c4 ! length (heap c)))))"
proof -
  have e: "enter c k t = (fst (enter c k t), length (heap c), False)"
    using assms(1) by (simp add: enter_miss)
  have s: "snd (expire now c' k e False) = False" for now c' e
    by (simp add: expire_def Let_def)
  show ?thesis
    apply (subst lookup_loop.simps)
    apply (subst e)
    apply (simp add: Let_def assms fetch_enter_miss split: prod.splits option.splits)
    using s apply (metis snd_conv)
    done
qed

lemma lookup_loop_hit_fresh:
  assumes "map_of (items c) k = Some e" and "ctx_err (envs i) = None"
    and "\<not> time_After (checked_at (envs i)) (ttl (heap c ! e))"
  shows "lookup_loop r envs i c k t =
     Some (c\<lparr>queue := MoveToFront e (queue c), hits := hits c + 1\<rparr>,
           (Some e, addrs (heap c ! e), ttl (heap c ! e), err (heap c ! e)))"
proof -
  let ?c1 = "c\<lparr>queue := MoveToFront e (queue c)\<rparr>"
  have x: "expire (checked_at (envs i)) ?c1 k e True = (?c1, False)"
    using assms(3) by (simp add: expire_fresh)
  show ?thesis
    by (subst lookup_loop.simps)
       (simp add: enter_hit [OF assms(1)] Let_def assms(2) x account_def)
qed

lemma lookup_loop_hit_stale:
  assumes "map_of (items c) k = Some e" and "ctx_err (envs i) = None"
    and "time_After (checked_at (envs i)) (ttl (heap c ! e))"
  shows "lookup_loop r envs i c k t =
     lookup_loop r envs (Suc i)
       (c\<lparr>queue := Remove e (MoveToFront e (queue c)),
          items := AList.delete k (items c),
          bytes := Cache.bytes c - cacheItem.bytes (heap c ! e),
          size' := size' c - 1, evictions := evictions c + 1\<rparr>) k t"
proof -
  let ?c1 = "c\<lparr>queue := MoveToFront e (queue c)\<rparr>"
  have x: "expire (checked_at (envs i)) ?c1 k e True =
      (?c1\<lparr>queue := Remove e (queue ?c1), items := AList.delete k (items ?c1),
        bytes := Cache.bytes ?c1 - cacheItem.bytes (heap ?c1 ! e),
        size' := size' ?c1 - 1, evictions := evictions ?c1 + 1\<rparr>, True)"
    by (rule expire_stale) (use assms in simp_all)
  show ?thesis
    by (subst lookup_loop.simps)
       (simp add: enter_hit [OF assms(1)] Let_def assms(2) x)
qed


subsection \<open>The statistics\<close>

lemma stats_ok_enter: "stats_ok c \<Longrightarrow> stats_ok (fst (enter c k t))"
  by (simp add: stats_ok_def enter_def Let_def split: option.splits)

lemma stats_ok_fetch: "stats_ok c \<Longrightarrow> stats_ok (fetch r p now c e)"
  by (simp add: stats_ok_def fetch_def)

lemma stats_ok_expire: "stats_ok c \<Longrightarrow> stats_ok (fst (expire now c k e hit))"
  by (simp add: stats_ok_def expire_def Let_def)

lemma stats_ok_evict_oldest:
  "stats_ok c \<Longrightarrow> evict_oldest maxB b c = Some c' \<Longrightarrow> stats_ok c'"
proof (induction maxB b c rule: evict_oldest.induct)
  case (1 maxB b cache)
  show ?case
  proof (cases "maxB <s b \<and> items cache \<noteq> [] \<and> queue cache \<noteq> []")
    case False
    then show ?thesis using 1(2,3)
      by (subst (asm) evict_oldest.simps) (auto split: if_splits)
  next
    case True
    let ?e = "last (queue cache)"
    let ?c' = "cache\<lparr>queue := Remove ?e (queue cache),
                         items := AList.delete (key (heap cache ! ?e)) (items cache),
                         bytes := Cache.bytes cache - cacheItem.bytes (heap cache ! ?e),
                         size' := size' cache - 1,
                         evictions := evictions cache + 1\<rparr>"
    have s: "stats_ok ?c'" using 1(2) by (simp add: stats_ok_def)
    have "evict_oldest maxB (Cache.bytes cache - cacheItem.bytes (heap cache ! ?e)) ?c' = Some c'"
      using 1(3) True by (subst (asm) evict_oldest.simps) (simp add: Let_def)
    from 1(1) [OF _ _ _ refl refl refl s this] True show ?thesis by simp
  qed
qed

lemma stats_ok_account: "stats_ok c \<Longrightarrow> account c e hit = Some c' \<Longrightarrow> stats_ok c'"
proof (cases hit)
  case True
  assume "stats_ok c" "account c e hit = Some c'"
  with True show ?thesis by (auto simp: account_def stats_ok_def)
next
  case False
  assume a: "stats_ok c" "account c e hit = Some c'"
  have "stats_ok (c\<lparr>size' := size' c + 1, misses := misses c + 1,
      bytes := Cache.bytes c + cacheItem.bytes (heap c ! e)\<rparr>)"
    using a(1) by (simp add: stats_ok_def)
  then show ?thesis using a(2) False stats_ok_evict_oldest
    by (simp add: account_def Let_def)
qed

lemma stats_ok_lookup_loop:
  "stats_ok c \<Longrightarrow> lookup_loop r envs i c k t = Some (c', res) \<Longrightarrow> stats_ok c'"
  by (rule lookup_loop_invariant [where P = stats_ok])
     (auto intro: stats_ok_enter stats_ok_fetch stats_ok_expire stats_ok_account)

lemma wf_lookup_loop:
  "wf_cache c \<Longrightarrow> lookup_loop r envs i c k t = Some (c', res) \<Longrightarrow> wf_cache c'"
proof (rule lookup_loop_invariant [where P = wf_cache])
  fix c e hit c'
  assume "wf_cache c" and a: "account c e hit = Some c'"
  then obtain c'' where "account c e hit = Some c''" "wf_cache c''"
    using account_Some by blast
  then show "wf_cache c'" using a by simp
qed (auto intro: wf_enter wf_fetch wf_expire)

text \<open>On a well-formed cache the loop returns: it never panics.\<close>

lemma lookup_loop_total:
  "wf_cache c \<Longrightarrow> \<exists>c' res. lookup_loop r envs i c k t = Some (c', res)"
proof (induction r envs i c k t rule: lookup_loop.induct)
  case (1 r envs i cache k tgs)
  obtain c1 elem hit where en: "enter cache k tgs = (c1, elem, hit)"
    by (cases "enter cache k tgs") auto
  define c2 where "c2 = (if \<not> hit then fetch r (perm (envs i)) (fetched_at (envs i)) c1 elem else c1)"
  obtain c3 again where ex: "expire (checked_at (envs i)) c2 k elem hit = (c3, again)"
    by (cases "expire (checked_at (envs i)) c2 k elem hit") auto
  have p1: "wf_cache c1" using wf_enter [OF 1(2), of k tgs] en by simp
  have p2: "wf_cache c2" using p1 wf_fetch by (simp add: c2_def)
  have p3: "wf_cache c3" using wf_expire [OF p2, of "checked_at (envs i)" k elem hit] ex by simp
  show ?case
  proof (cases "ctx_err (envs i)")
    case (Some e)
    then show ?thesis using lookup_loop_canceled by blast
  next
    case None
    show ?thesis
    proof (cases again)
      case True
      from 1(1) [OF en [symmetric] refl refl c2_def None _ True p3] ex
      have "\<exists>c' res. lookup_loop r envs (Suc i) c3 k tgs = Some (c', res)"
        by (simp add: c2_def)
      then show ?thesis using en ex None True
        by (subst lookup_loop.simps) (simp add: c2_def Let_def)
    next
      case False
      obtain c4 where "account c3 elem hit = Some c4" using account_Some [OF p3] by blast
      then show ?thesis using en ex None False
        by (subst lookup_loop.simps) (simp add: c2_def Let_def)
    qed
  qed
qed


lemma lookup_loop_result:
  "lookup_loop r envs i c k t = Some (c', (idx, as, d, er)) \<Longrightarrow>
     (\<exists>x. idx = None \<and> as = [] \<and> d = zeroTime \<and> er = Some x) \<or>
     (\<exists>e. idx = Some e \<and> as = addrs (heap c' ! e) \<and> d = ttl (heap c' ! e) \<and>
          er = err (heap c' ! e))"
proof (induction r envs i c k t rule: lookup_loop.induct)
  case (1 r envs i cache k tgs)
  obtain c1 elem hit where en: "enter cache k tgs = (c1, elem, hit)"
    by (cases "enter cache k tgs") auto
  define c2 where "c2 = (if \<not> hit then fetch r (perm (envs i)) (fetched_at (envs i)) c1 elem else c1)"
  obtain c3 again where ex: "expire (checked_at (envs i)) c2 k elem hit = (c3, again)"
    by (cases "expire (checked_at (envs i)) c2 k elem hit") auto
  show ?case
  proof (cases "ctx_err (envs i)")
    case (Some e)
    from lookup_loop_canceled [of envs i e r cache k tgs] Some 1(2)
    show ?thesis by auto
  next
    case None
    show ?thesis
    proof (cases again)
      case True
      have "lookup_loop r envs (Suc i) c3 k tgs = Some (c', (idx, as, d, er))"
        using 1(2) en ex None True
        by (subst (asm) lookup_loop.simps) (simp add: c2_def Let_def)
      from 1(1) [OF en [symmetric] refl refl c2_def None _ True this] ex
      show ?thesis by (simp add: c2_def)
    next
      case False
      then show ?thesis using 1(2) en ex None
        by (subst (asm) lookup_loop.simps) (auto simp: c2_def Let_def split: option.splits)
    qed
  qed
qed

lemma lookup_invariant:
  assumes "\<And>c i k t c' res. P c \<Longrightarrow> lookup_loop r envs i c k t = Some (c', res) \<Longrightarrow> P c'"
  shows "P c \<Longrightarrow> lookup r envs c nm tgs = Some (c', res) \<Longrightarrow> P c'"
  using assms by (auto simp: lookup_def Let_def)

lemma wf_index_update:
  "wf_cache c \<Longrightarrow> wf_cache (c\<lparr>heap := (heap c)[p := (heap c ! p)\<lparr>index := i\<rparr>]\<rparr>)"
proof -
  assume wf: "wf_cache c"
  have "key ((heap c)[p := (heap c ! p)\<lparr>index := i\<rparr>] ! j) = key (heap c ! j)" for j
    by (cases "j = p"; cases "p < length (heap c)") (simp_all add: list_update_beyond)
  then show ?thesis using wf by (simp add: wf_cache_def)
qed

lemma Resolve_invariant:
  assumes l: "\<And>c i k t c' res. P c \<Longrightarrow> lookup_loop r envs i c k t = Some (c', res) \<Longrightarrow> P c'"
    and u: "\<And>c p i. P c \<Longrightarrow> P (c\<lparr>heap := (heap c)[p := (heap c ! p)\<lparr>index := i\<rparr>]\<rparr>)"
  shows "P c \<Longrightarrow> Resolve r envs c nm = Some (c', x) \<Longrightarrow> P c'"
proof -
  assume p: "P c" and r: "Resolve r envs c nm = Some (c', x)"
  obtain c1 idx as d er where lk: "lookup r envs c nm [] = Some (c1, (idx, as, d, er))"
    using r by (cases "lookup r envs c nm []") (auto simp: Resolve_def)
  have p1: "P c1" using lk p l by (auto simp: lookup_def Let_def)
  show ?thesis
    using r lk p1 u [OF p1]
    by (auto simp: Resolve_def Let_def split: option.splits if_splits)
qed

lemma Lookup_invariant:
  assumes l: "\<And>c i k t c' res. P c \<Longrightarrow> lookup_loop r envs i c k t = Some (c', res) \<Longrightarrow> P c'"
  shows "P c \<Longrightarrow> Lookup r envs now c nm tgs = Some (c', x) \<Longrightarrow> P c'"
proof -
  assume p: "P c" and r: "Lookup r envs now c nm tgs = Some (c', x)"
  obtain c1 idx as d er where lk: "lookup r envs c nm tgs = Some (c1, (idx, as, d, er))"
    using r by (cases "lookup r envs c nm tgs") (auto simp: Lookup_def)
  have p1: "P c1" using lk p l by (auto simp: lookup_def Let_def)
  show ?thesis
    using r lk p1 by (auto simp: Lookup_def Let_def split: option.splits if_splits)
qed

lemma lookup_total:
  "wf_cache c \<Longrightarrow> \<exists>c' res. lookup r envs c nm tgs = Some (c', res)"
  unfolding lookup_def Let_def by (rule lookup_loop_total)

lemma lookup_result:
  "lookup r envs c nm tgs = Some (c', (idx, as, d, er)) \<Longrightarrow>
     (\<exists>x. idx = None \<and> as = [] \<and> d = zeroTime \<and> er = Some x) \<or>
     (\<exists>e. idx = Some e \<and> as = addrs (heap c' ! e) \<and> d = ttl (heap c' ! e) \<and>
          er = err (heap c' ! e))"
  by (auto simp: lookup_def Let_def dest: lookup_loop_result)

lemma Resolve_total:
  assumes "wf_cache c"
  shows "\<exists>c' x. Resolve r envs c nm = Some (c', x)"
proof -
  obtain c1 idx as d er where lk: "lookup r envs c nm [] = Some (c1, (idx, as, d, er))"
    using lookup_total [OF assms] by (metis prod_cases4)
  from lookup_result [OF lk] show ?thesis
    using lk by (auto simp: Resolve_def Let_def split: option.splits)
qed

lemma Lookup_total:
  assumes "wf_cache c"
  shows "\<exists>c' x. Lookup r envs now c nm tgs = Some (c', x)"
proof -
  obtain c1 idx as d er where lk: "lookup r envs c nm tgs = Some (c1, (idx, as, d, er))"
    using lookup_total [OF assms] by (metis prod_cases4)
  then show ?thesis
    by (cases er) (auto simp: Lookup_def Let_def)
qed

lemma run_call_ok:
  assumes "wf_cache c" and "stats_ok c"
  shows "\<exists>c'. run_call r c call = Some c' \<and> wf_cache c' \<and> stats_ok c'"
proof (cases call)
  case (CallResolve nm envs)
  obtain c' x where s: "Resolve r envs c nm = Some (c', x)"
    using Resolve_total [OF assms(1)] by blast
  have "wf_cache c'"
    by (rule Resolve_invariant [where P = wf_cache, OF _ _ assms(1) s])
       (auto intro: wf_lookup_loop wf_index_update)
  moreover have "stats_ok c'"
  proof (rule Resolve_invariant [where P = stats_ok, OF _ _ assms(2) s])
    show "\<And>c p i. stats_ok c \<Longrightarrow>
        stats_ok (c\<lparr>heap := (heap c)[p := (heap c ! p)\<lparr>index := i\<rparr>]\<rparr>)"
      by (simp add: stats_ok_def)
  qed (rule stats_ok_lookup_loop)
  ultimately show ?thesis using s CallResolve by simp
next
  case (CallLookup nm tgs envs now)
  obtain c' x where s: "Lookup r envs now c nm tgs = Some (c', x)"
    using Lookup_total [OF assms(1)] by blast
  have "wf_cache c'"
    by (rule Lookup_invariant [where P = wf_cache, OF _ assms(1) s])
       (auto intro: wf_lookup_loop)
  moreover have "stats_ok c'"
    by (rule Lookup_invariant [where P = stats_ok, OF _ assms(2) s])
       (auto intro: stats_ok_lookup_loop)
  ultimately show ?thesis using s CallLookup by simp
qed


subsection \<open>What the steps leave alone\<close>

lemma expire_heap [simp]: "heap (fst (expire now c k e hit)) = heap c"
  by (simp add: expire_def Let_def)

lemma expire_config [simp]:
  "MinTTL (fst (expire now c k e hit)) = MinTTL c"
  "MaxTTL (fst (expire now c k e hit)) = MaxTTL c"
  "MaxBytes (fst (expire now c k e hit)) = MaxBytes c"
  by (simp_all add: expire_def Let_def)

lemma evict_oldest_heap:
  "evict_oldest maxB b c = Some c' \<Longrightarrow>
     heap c' = heap c \<and> MinTTL c' = MinTTL c \<and> MaxTTL c' = MaxTTL c \<and> MaxBytes c' = MaxBytes c
     \<and> hits c' = hits c \<and> misses c' = misses c"
proof (induction maxB b c rule: evict_oldest.induct)
  case (1 maxB b cache)
  show ?case
  proof (cases "maxB <s b \<and> items cache \<noteq> [] \<and> queue cache \<noteq> []")
    case False
    then show ?thesis using 1(2)
      by (subst (asm) evict_oldest.simps) (auto split: if_splits)
  next
    case True
    let ?e = "last (queue cache)"
    let ?c' = "cache\<lparr>queue := Remove ?e (queue cache),
                         items := AList.delete (key (heap cache ! ?e)) (items cache),
                         bytes := Cache.bytes cache - cacheItem.bytes (heap cache ! ?e),
                         size' := size' cache - 1,
                         evictions := evictions cache + 1\<rparr>"
    have "evict_oldest maxB (Cache.bytes cache - cacheItem.bytes (heap cache ! ?e)) ?c' = Some c'"
      using 1(2) True by (subst (asm) evict_oldest.simps) (simp add: Let_def)
    from 1(1) [OF _ _ _ refl refl refl this] True show ?thesis by simp
  qed
qed

lemma account_heap:
  "account c e hit = Some c' \<Longrightarrow>
     heap c' = heap c \<and> MinTTL c' = MinTTL c \<and> MaxTTL c' = MaxTTL c \<and> MaxBytes c' = MaxBytes c"
  by (cases hit) (auto simp: account_def Let_def dest: evict_oldest_heap)

lemma expire_items:
  "map_of (items (fst (expire now c k e hit))) k' = Some e' \<Longrightarrow> map_of (items c) k' = Some e'"
  by (auto simp: expire_def Let_def delete_conv split: if_splits)

lemma evict_oldest_items:
  "evict_oldest maxB b c = Some c' \<Longrightarrow> map_of (items c') k' = Some e' \<Longrightarrow>
     map_of (items c) k' = Some e'"
proof (induction maxB b c rule: evict_oldest.induct)
  case (1 maxB b cache)
  show ?case
  proof (cases "maxB <s b \<and> items cache \<noteq> [] \<and> queue cache \<noteq> []")
    case False
    then show ?thesis using 1(2,3)
      by (subst (asm) evict_oldest.simps) (auto split: if_splits)
  next
    case True
    let ?e = "last (queue cache)"
    let ?c' = "cache\<lparr>queue := Remove ?e (queue cache),
                         items := AList.delete (key (heap cache ! ?e)) (items cache),
                         bytes := Cache.bytes cache - cacheItem.bytes (heap cache ! ?e),
                         size' := size' cache - 1,
                         evictions := evictions cache + 1\<rparr>"
    have "evict_oldest maxB (Cache.bytes cache - cacheItem.bytes (heap cache ! ?e)) ?c' = Some c'"
      using 1(2) True by (subst (asm) evict_oldest.simps) (simp add: Let_def)
    from 1(1) [OF _ _ _ refl refl refl this 1(3)] True show ?thesis
      by (simp add: delete_conv split: if_splits)
  qed
qed

lemma account_items:
  "account c e hit = Some c' \<Longrightarrow> map_of (items c') k' = Some e' \<Longrightarrow>
     map_of (items c) k' = Some e'"
  by (cases hit) (auto simp: account_def Let_def dest: evict_oldest_items)

subsection \<open>Claim C5\<close>

lemma shuffledStrings_Nil [simp]: "shuffledStrings as [] = []"
  by (simp add: shuffledStrings_def)

lemma fetched_item_simps:
  assumes "r (name k) [] = (as, t, e)"
  shows "addrs (fetched_item r en c k) = shuffledStrings as (perm en)"
    "err (fetched_item r en c k) = e"
    "key (fetched_item r en c k) = k"
    "index (fetched_item r en c k) = 0"
    "ready (fetched_item r en c k)"
  using assms by (simp_all add: fetched_item_def item_lookup_def newCacheItem_def Let_def)

text \<open>The outcome of the loop on a miss: the entry just fetched, whatever its expiry.\<close>

lemma lookup_loop_miss_result:
  assumes wf: "wf_cache c" and miss: "map_of (items c) k = None" and ctx: "ctx_err (envs i) = None"
  shows "\<exists>c'. lookup_loop r envs i c k t =
            Some (c', (Some (length (heap c)), addrs (fetched_item r (envs i) c k),
                       ttl (fetched_item r (envs i) c k), err (fetched_item r (envs i) c k)))
          \<and> heap c' = heap c @ [fetched_item r (envs i) c k] \<and> wf_cache c'
          \<and> (\<forall>e'. map_of (items c') k = Some e' \<longrightarrow> e' = length (heap c))"
proof -
  let ?m = "missed r (envs i) c k"
  let ?x = "fst (expire (checked_at (envs i)) ?m k (length (heap c)) False)"
  have "wf_cache ?m"
    using wf_fetch [OF wf_enter [OF wf, of k t], of r "perm (envs i)" "fetched_at (envs i)"
        "length (heap c)"]
    by (simp add: fetch_enter_miss [OF miss])
  then have "wf_cache ?x" by (rule wf_expire)
  then obtain c4 where a: "account ?x (length (heap c)) False = Some c4" and w4: "wf_cache c4"
    using account_Some by blast
  have h: "heap c4 = heap c @ [fetched_item r (envs i) c k]"
    using account_heap [OF a] by (simp add: missed_def)
  have "e' = length (heap c)" if "map_of (items c4) k = Some e'" for e'
  proof -
    have "map_of (items ?x) k = Some e'" using account_items [OF a that] .
    then have "map_of (items ?m) k = Some e'" by (rule expire_items)
    then show ?thesis by simp
  qed
  then show ?thesis
    using a h w4 miss ctx by (simp add: lookup_loop_miss [of c k envs i r t])
qed

lemma delete_unmapped [simp]: "map_of (AList.delete k al) k = None"
  by (simp add: delete_conv')

lemma wf_evicted:
  assumes wf: "wf_cache c" and hit: "map_of (items c) k = Some e"
  shows "wf_cache (c\<lparr>queue := Remove e (MoveToFront e (queue c)),
          items := AList.delete k (items c),
          bytes := b, size' := s, evictions := v\<rparr>)"
proof -
  have mem: "(k, e) \<in> set (items c)" using hit by (rule map_of_SomeD)
  have "wf_cache (fst (enter c k []))" using wf by (rule wf_enter)
  then have w1: "wf_cache (c\<lparr>queue := MoveToFront e (queue c)\<rparr>)"
    by (simp add: enter_hit [OF hit])
  show ?thesis
    by (rule wf_remove [OF w1, of k e]) (simp_all add: mem)
qed

text \<open>The outcome of the loop on a hit of an expired entry: one more turn, which is a miss.\<close>

lemma lookup_loop_stale_result:
  assumes wf: "wf_cache c" and hit: "map_of (items c) k = Some e"
    and ctx: "ctx_err (envs i) = None" "ctx_err (envs (Suc i)) = None"
    and stale: "time_After (checked_at (envs i)) (ttl (heap c ! e))"
  shows "\<exists>c'. lookup_loop r envs i c k t =
            Some (c', (Some (length (heap c)), addrs (fetched_item r (envs (Suc i)) c k),
                       ttl (fetched_item r (envs (Suc i)) c k),
                       err (fetched_item r (envs (Suc i)) c k)))
          \<and> heap c' = heap c @ [fetched_item r (envs (Suc i)) c k] \<and> wf_cache c'
          \<and> (\<forall>e'. map_of (items c') k = Some e' \<longrightarrow> e' = length (heap c))"
proof -
  let ?c = "c\<lparr>queue := Remove e (MoveToFront e (queue c)),
          items := AList.delete k (items c),
          bytes := Cache.bytes c - cacheItem.bytes (heap c ! e),
          size' := size' c - 1, evictions := evictions c + 1\<rparr>"
  have w: "wf_cache ?c" using wf hit by (rule wf_evicted)
  have m: "map_of (items ?c) k = None" by simp
  have f: "fetched_item r en ?c k = fetched_item r en c k" for en
    by (simp add: fetched_item_def minTTL_def maxTTL_def)
  from lookup_loop_miss_result [of ?c k envs "Suc i" r t] w m ctx(2)
  show ?thesis
    using hit ctx(1) stale by (simp add: lookup_loop_hit_stale [of c k e envs i r t] f)
qed

text \<open>
  Claim C5.  Let the backend answer the name with no address and no error, let the caller
  not be cancelled, and let the entry that the cache may hold for the name carry that
  answer.  Then \<open>Resolve\<close> fails with the \<open>cacheError\<close> of the name, which \<open>isUnreachable\<close>
  classifies as unreachable; and the entry that the cache holds afterwards carries the
  same answer.
\<close>

theorem Resolve_no_results:
  assumes wf: "wf_cache c"
    and backend: "r nm [] = ([], t, None)"
    and rnd: "\<forall>i. perm (envs i) = []"
    and ctx: "\<forall>i. ctx_err (envs i) = None"
    and cached: "\<forall>e. map_of (items c) (makeCacheKey nm []) = Some e \<longrightarrow>
                   addrs (heap c ! e) = [] \<and> err (heap c ! e) = None"
  shows "\<exists>c'. Resolve r envs c nm = Some (c', Inl (CacheError nm)) \<and>
              isUnreachable (Some (CacheError nm)) \<and>
              (\<forall>e. map_of (items c') (makeCacheKey nm []) = Some e \<longrightarrow>
                   addrs (heap c' ! e) = [] \<and> err (heap c' ! e) = None)"
proof -
  let ?k = "makeCacheKey nm []"
  have lk: "lookup r envs c nm [] = lookup_loop r envs 0 c ?k []"
    by (simp add: lookup_def sortedStrings_sort)
  have nm: "name ?k = nm" by (simp add: makeCacheKey_def)
  have F: "addrs (fetched_item r (envs i) c ?k) = []" "err (fetched_item r (envs i) c ?k) = None"
    for i
    using fetched_item_simps(1,2) [of r ?k "[]" t None "envs i" c] backend rnd
    by (simp_all add: nm)
  have upd: "addrs ((heap c1)[p := (heap c1 ! p)\<lparr>index := j\<rparr>] ! q) = addrs (heap c1 ! q)"
            "err ((heap c1)[p := (heap c1 ! p)\<lparr>index := j\<rparr>] ! q) = err (heap c1 ! q)"
    for c1 :: Cache and p j q
    by (cases "q = p"; cases "p < length (heap c1)"; simp add: list_update_beyond)+
  have fresh_case: ?thesis
    if res: "lookup_loop r envs 0 c ?k [] = Some (c1, (Some n, [], d, None))"
      and post: "\<forall>e. map_of (items c1) ?k = Some e \<longrightarrow>
                   addrs (heap c1 ! e) = [] \<and> err (heap c1 ! e) = None"
    for c1 n d
    using res post by (simp add: Resolve_def lk Let_def upd)
  show ?thesis
  proof (cases "map_of (items c) ?k")
    case None
    from lookup_loop_miss_result [of c ?k envs 0 r "[]"] wf None ctx
    obtain c1 where 1: "lookup_loop r envs 0 c ?k [] =
          Some (c1, (Some (length (heap c)), addrs (fetched_item r (envs 0) c ?k),
                     ttl (fetched_item r (envs 0) c ?k), err (fetched_item r (envs 0) c ?k)))"
      and 2: "heap c1 = heap c @ [fetched_item r (envs 0) c ?k]"
      and 3: "\<forall>e'. map_of (items c1) ?k = Some e' \<longrightarrow> e' = length (heap c)"
      by auto
    show ?thesis
      by (rule fresh_case [of c1 "length (heap c)"]) (use 1 2 3 F in auto)
  next
    case (Some e)
    show ?thesis
    proof (cases "time_After (checked_at (envs 0)) (ttl (heap c ! e))")
      case True
      from lookup_loop_stale_result [of c ?k e envs 0 r "[]"] wf Some ctx True
      obtain c1 where 1: "lookup_loop r envs 0 c ?k [] =
          Some (c1, (Some (length (heap c)), addrs (fetched_item r (envs (Suc 0)) c ?k),
                     ttl (fetched_item r (envs (Suc 0)) c ?k),
                     err (fetched_item r (envs (Suc 0)) c ?k)))"
        and 2: "heap c1 = heap c @ [fetched_item r (envs (Suc 0)) c ?k]"
        and 3: "\<forall>e'. map_of (items c1) ?k = Some e' \<longrightarrow> e' = length (heap c)"
        by auto
      show ?thesis
        by (rule fresh_case [of c1 "length (heap c)"]) (use 1 2 3 F in auto)
    next
      case False
      show ?thesis
        by (rule fresh_case [of "c\<lparr>queue := MoveToFront e (queue c), hits := hits c + 1\<rparr>" e])
           (use Some False ctx cached in \<open>simp_all add: lookup_loop_hit_fresh [of c ?k e envs 0 r "[]"]\<close>)
    qed
  qed
qed

theorem Resolve_no_results_witness:
  "wf_cache (newCache 0 0 0) \<and>
   registry [''svc'' \<mapsto> []] ''svc'' [] = ([], Second, None) \<and>
   map_option snd
     (Resolve (registry [''svc'' \<mapsto> []])
        (\<lambda>i. \<lparr>perm = [], fetched_at = 0, checked_at = 0, ctx_err = None\<rparr>)
        (newCache 0 0 0) ''svc'') = Some (Inl (CacheError ''svc'')) \<and>
   isUnreachable (Some (CacheError ''svc''))"
proof -
  let ?r = "registry [''svc'' \<mapsto> []]"
  let ?envs = "\<lambda>i::nat. \<lparr>perm = [], fetched_at = 0, checked_at = 0, ctx_err = None\<rparr>"
  have b: "?r ''svc'' [] = ([], Second, None)"
    by (simp add: registry_def copyStrings_def)
  have c: "\<forall>e. map_of (items (newCache 0 0 0)) (makeCacheKey ''svc'' []) = Some e \<longrightarrow>
             addrs (heap (newCache 0 0 0) ! e) = [] \<and> err (heap (newCache 0 0 0) ! e) = None"
    by (simp add: newCache_def)
  from Resolve_no_results [of "newCache 0 0 0" ?r "''svc''" Second ?envs, OF wf_newCache b _ _ c]
  obtain c' where "Resolve ?r ?envs (newCache 0 0 0) ''svc'' = Some (c', Inl (CacheError ''svc''))"
    by auto
  then show ?thesis using b wf_newCache by simp
qed

subsection \<open>Claim C6\<close>

lemma sint_max_duration: "sint (word_of_int (2 ^ 63 - 1) :: 64 word) = 2 ^ 63 - 1"
  by simp

lemma sint_minTTL: "sint (minTTL c) = (if 0 < sint (MinTTL c) then sint (MinTTL c) else 0)"
  by (simp add: minTTL_def word_sless_alt)

lemma sint_maxTTL:
  "sint (maxTTL c) = (if 0 < sint (MaxTTL c) then sint (MaxTTL c) else 2 ^ 63 - 1)"
  by (simp add: maxTTL_def word_sless_alt)

lemma item_lookup_ttl:
  assumes "r (name (key item)) (cacheItem.tags item) = (as, t, e)"
  shows "ttl (item_lookup r minT maxT p now item) =
           now + min (sint maxT) (max (sint minT) (sint t))"
    and "err (item_lookup r minT maxT p now item) = e"
    and "ready (item_lookup r minT maxT p now item)"
  using assms
  by (auto simp: item_lookup_def Let_def time_Add_def word_sless_alt min_def max_def)

text \<open>
  Claim C6, as amended.  For every answer of the backend, success or error, the fetch
  stores the error on the entry and sets the expiry to the clock plus the backend's
  validity, first raised to \<open>minTTL\<close> and then lowered to \<open>maxTTL\<close>; \<open>minTTL\<close> is
  \<open>MinTTL\<close> if positive and 0 otherwise, \<open>maxTTL\<close> is \<open>MaxTTL\<close> if positive and the largest
  duration otherwise.  The validity used lies in \<open>[minTTL, maxTTL]\<close> whenever
  \<open>minTTL \<le> maxTTL\<close>; when the floor is above the ceiling, it is \<open>maxTTL\<close>.
\<close>

theorem fetch_clamps_ttl:
  assumes "elem < length (heap c)"
    and "r (name (key (heap c ! elem))) (cacheItem.tags (heap c ! elem)) = (as, t, e)"
  shows "ttl (heap (fetch r p now c elem) ! elem) =
           now + min (sint (maxTTL c)) (max (sint (minTTL c)) (sint t)) \<and>
         err (heap (fetch r p now c elem) ! elem) = e \<and>
         ready (heap (fetch r p now c elem) ! elem) \<and>
         sint (minTTL c) = (if 0 < sint (MinTTL c) then sint (MinTTL c) else 0) \<and>
         sint (maxTTL c) = (if 0 < sint (MaxTTL c) then sint (MaxTTL c) else 2 ^ 63 - 1) \<and>
         sint t \<le> 2 ^ 63 - 1 \<and>
         (sint (minTTL c) \<le> sint (maxTTL c) \<longrightarrow>
            now + sint (minTTL c) \<le> ttl (heap (fetch r p now c elem) ! elem) \<and>
            ttl (heap (fetch r p now c elem) ! elem) \<le> now + sint (maxTTL c)) \<and>
         (sint (maxTTL c) < sint (minTTL c) \<longrightarrow>
            ttl (heap (fetch r p now c elem) ! elem) = now + sint (maxTTL c))"
proof -
  have h: "heap (fetch r p now c elem) ! elem =
      item_lookup r (minTTL c) (maxTTL c) p now (heap c ! elem)"
    using assms(1) by (simp add: fetch_def)
  have b: "sint t \<le> 2 ^ 63 - 1"
    using sint_lt [of t] by simp
  note il = item_lookup_ttl [of r "heap c ! elem" as t e "minTTL c" "maxTTL c" p now, OF assms(2)]
  show ?thesis
    unfolding h il
    using b il(3) by (simp add: sint_minTTL sint_maxTTL min_def max_def)
qed

theorem fetch_clamps_ttl_witness:
  "0 < length (heap (fst (enter (newCache 0 0 0) (makeCacheKey ''svc'' []) []))) \<and>
   ttl (heap (fetch (registry [''svc'' \<mapsto> [''a'']]) [0] 100
               (fst (enter (newCache 0 0 0) (makeCacheKey ''svc'' []) [])) 0) ! 0)
     = 100 + 1000000000 \<and>
   err (heap (fetch (registry [''svc'' \<mapsto> [''a'']]) [0] 100
               (fst (enter (newCache 0 0 0) (makeCacheKey ''svc'' []) [])) 0) ! 0) = None"
proof -
  let ?c = "fst (enter (newCache 0 0 0) (makeCacheKey ''svc'' []) [])"
  let ?r = "registry [''svc'' \<mapsto> [''a'']]"
  have l: "0 < length (heap ?c)" by code_simp
  have b: "?r (name (key (heap ?c ! 0))) (cacheItem.tags (heap ?c ! 0)) = ([''a''], Second, None)"
    by code_simp
  have v: "sint (maxTTL ?c) = 9223372036854775807" "sint (minTTL ?c) = 0"
    "sint Second = 1000000000"
    by code_simp+
  show ?thesis
    using fetch_clamps_ttl [where elem = 0 and c = ?c and r = ?r and as = "[''a'']"
        and t = Second and e = None
        and p = "[0]" and now = 100, OF l b] l
    unfolding v by simp
qed

theorem fetch_clamps_ttl_counterexample:
  "sint (minTTL (fst (enter (newCache 10 5 0) (makeCacheKey ''svc'' []) []))) = 10 \<and>
   sint (maxTTL (fst (enter (newCache 10 5 0) (makeCacheKey ''svc'' []) []))) = 5 \<and>
   ttl (heap (fetch (\<lambda>nm tgs. ([''a''], 7, None)) [0] 100
               (fst (enter (newCache 10 5 0) (makeCacheKey ''svc'' []) [])) 0) ! 0) = 100 + 5 \<and>
   \<not> (100 + sint (minTTL (fst (enter (newCache 10 5 0) (makeCacheKey ''svc'' []) [])))
        \<le> ttl (heap (fetch (\<lambda>nm tgs. ([''a''], 7, None)) [0] 100
               (fst (enter (newCache 10 5 0) (makeCacheKey ''svc'' []) [])) 0) ! 0))"
  by code_simp

theorem permuted_tags_same_key_witness:
  "mset [''b'', ''a''] = mset [''a'', ''b''] \<and>
   makeCacheKey ''svc'' (sortedStrings [''b'', ''a'']) =
     makeCacheKey ''svc'' (sortedStrings [''a'', ''b'']) \<and>
   lookup (registry Map.empty) (\<lambda>i. \<lparr>perm = [], fetched_at = 0, checked_at = 0, ctx_err = None\<rparr>)
       (newCache 0 0 0) ''svc'' [''b'', ''a''] =
     lookup (registry Map.empty) (\<lambda>i. \<lparr>perm = [], fetched_at = 0, checked_at = 0, ctx_err = None\<rparr>)
       (newCache 0 0 0) ''svc'' [''a'', ''b'']"
proof -
  have h: "mset [''b'', ''a''] = mset [''a'', ''b'']" by simp
  from permuted_tags_same_key [OF h] h show ?thesis by simp
qed

subsection \<open>Claim C3\<close>

theorem counters_monotone_counterexample:
  "map_option (\<lambda>c. (Size (Stats c), Bytes (Stats c)))
     (run_calls (registry [''svc'' \<mapsto> [''a'']]) (newCache 0 0 0)
        [CallResolve ''svc''
           (\<lambda>i. \<lparr>perm = [0], fetched_at = 0, checked_at = 0, ctx_err = None\<rparr>)])
     = Some (1, 244) \<and>
   map_option (\<lambda>c. (Size (Stats c), Bytes (Stats c)))
     (run_calls (registry [''svc'' \<mapsto> [''a'']]) (newCache 0 0 0)
        [CallResolve ''svc''
           (\<lambda>i. \<lparr>perm = [0], fetched_at = 0, checked_at = 0, ctx_err = None\<rparr>),
         CallResolve ''svc''
           (\<lambda>i. if i = 0
                then \<lparr>perm = [0], fetched_at = 0, checked_at = 4000000000, ctx_err = None\<rparr>
                else \<lparr>perm = [0], fetched_at = 5000000000, checked_at = 7000000000,
                      ctx_err = None\<rparr>)])
     = Some (0, 0)"
  by code_simp

lemma evict_oldest_counts:
  "evict_oldest maxB b c = Some c' \<Longrightarrow>
     \<exists>v \<le> length (queue c). evictions c' = evictions c + of_nat v"
proof (induction maxB b c rule: evict_oldest.induct)
  case (1 maxB b cache)
  show ?case
  proof (cases "maxB <s b \<and> items cache \<noteq> [] \<and> queue cache \<noteq> []")
    case False
    then have "c' = cache" using 1(2)
      by (subst (asm) evict_oldest.simps) (auto split: if_splits)
    then show ?thesis by (intro exI [of _ 0]) simp
  next
    case True
    let ?e = "last (queue cache)"
    let ?c' = "cache\<lparr>queue := Remove ?e (queue cache),
                         items := AList.delete (key (heap cache ! ?e)) (items cache),
                         bytes := Cache.bytes cache - cacheItem.bytes (heap cache ! ?e),
                         size' := size' cache - 1,
                         evictions := evictions cache + 1\<rparr>"
    have "evict_oldest maxB (Cache.bytes cache - cacheItem.bytes (heap cache ! ?e)) ?c' = Some c'"
      using 1(2) True by (subst (asm) evict_oldest.simps) (simp add: Let_def)
    from 1(1) [OF _ _ _ refl refl refl this] True
    obtain v where v: "v \<le> length (Remove ?e (queue cache))"
      "evictions c' = evictions cache + 1 + of_nat v"
      by auto
    have "length (Remove ?e (queue cache)) < length (queue cache)"
      using True by (simp add: Remove_def length_remove1)
    then show ?thesis using v by (intro exI [of _ "Suc v"]) simp
  qed
qed

lemma sint_add_nat:
  fixes x :: "64 word"
  assumes "sint x + int n < 2 ^ 63"
  shows "sint (x + of_nat n) = sint x + int n"
proof -
  have lo: "- (2 ^ 63) \<le> sint x" using sint_ge [of x] by simp
  have "sint (x + of_nat n) = sint (word_of_int (sint x + int n) :: 64 word)"
    by simp
  also have "\<dots> = signed_take_bit 63 (sint x + int n)"
    by (simp only: sint_sbintrunc' len_of_numeral_defs) simp
  also have "\<dots> = sint x + int n"
    using lo assms by (intro signed_take_bit_int_eq_self) auto
  finally show ?thesis .
qed


lemma grows_refl [simp]: "grows n x x"
  by (auto simp: grows_def intro: exI [of _ 0])

lemma grows_Suc [simp]: "grows (Suc n) x (x + 1)"
  by (auto simp: grows_def intro: exI [of _ 1])

lemma grows_trans: "grows a x y \<Longrightarrow> grows b y z \<Longrightarrow> grows (a + b) x z"
  unfolding grows_def
proof -
  assume "\<exists>m. m \<le> a \<and> y = x + of_nat m" "\<exists>m. m \<le> b \<and> z = y + of_nat m"
  then obtain m1 m2 where "m1 \<le> a" "y = x + of_nat m1" "m2 \<le> b" "z = y + of_nat m2" by blast
  then show "\<exists>m. m \<le> a + b \<and> z = x + of_nat m"
    by (intro exI [of _ "m1 + m2"]) simp
qed

lemma grows_mono: "grows a x y \<Longrightarrow> a \<le> b \<Longrightarrow> grows b x y"
  unfolding grows_def using order_trans by blast

lemma grows_sint:
  assumes "grows n x y" and "sint x + int n < 2 ^ 63"
  shows "sint x \<le> sint y"
proof -
  obtain m where m: "m \<le> n" "y = x + of_nat m" using assms(1) by (auto simp: grows_def)
  have "sint x + int m < 2 ^ 63" using assms(2) m(1) by simp
  then show ?thesis using m(2) by (simp add: sint_add_nat)
qed

lemma enter_counters [simp]:
  "hits (fst (enter c k t)) = hits c" "misses (fst (enter c k t)) = misses c"
  "evictions (fst (enter c k t)) = evictions c"
  by (simp_all add: enter_def Let_def split: option.splits)

lemma fetch_counters [simp]:
  "hits (fetch r p now c e) = hits c" "misses (fetch r p now c e) = misses c"
  "evictions (fetch r p now c e) = evictions c" "queue (fetch r p now c e) = queue c"
  "items (fetch r p now c e) = items c"
  by (simp_all add: fetch_def)

lemma missed_counters [simp]:
  "hits (missed r en c k) = hits c" "misses (missed r en c k) = misses c"
  "evictions (missed r en c k) = evictions c"
  "length (queue (missed r en c k)) = Suc (length (queue c))"
  by (simp_all add: missed_def PushFront_def)

lemma expire_counters:
  "hits (fst (expire now c k e hit)) = hits c"
  "misses (fst (expire now c k e hit)) = misses c"
  "grows 1 (evictions c) (evictions (fst (expire now c k e hit)))"
  "length (queue (fst (expire now c k e hit))) \<le> length (queue c)"
  by (simp_all add: expire_def Let_def Remove_def length_remove1)

lemma account_counters:
  assumes "account c e hit = Some c'"
  shows "grows 1 (hits c) (hits c')" "grows 1 (misses c) (misses c')"
    "grows (length (queue c)) (evictions c) (evictions c')"
proof -
  show "grows 1 (hits c) (hits c')"
    using assms by (cases hit) (auto simp: account_def Let_def dest: evict_oldest_heap)
  show "grows 1 (misses c) (misses c')"
    using assms by (cases hit) (auto simp: account_def Let_def dest!: evict_oldest_heap)
  show "grows (length (queue c)) (evictions c) (evictions c')"
  proof (cases hit)
    case True
    then show ?thesis using assms by (auto simp: account_def)
  next
    case False
    then show ?thesis
      using assms by (auto simp: account_def Let_def grows_def dest!: evict_oldest_counts)
  qed
qed

lemma lookup_loop_canceled_state:
  assumes "ctx_err (envs i) = Some x" and "lookup_loop r envs i c k t = Some (c', res)"
  shows "hits c' = hits c \<and> misses c' = misses c \<and> evictions c' = evictions c"
proof -
  obtain c1 elem hit where en: "enter c k t = (c1, elem, hit)"
    by (cases "enter c k t") auto
  have c1: "c1 = fst (enter c k t)" using en by simp
  have "c' = (if \<not> hit then fetch r (perm (envs i)) (fetched_at (envs i)) c1 elem else c1)"
    using assms by (subst (asm) lookup_loop.simps) (auto simp: en Let_def)
  then show ?thesis by (simp add: c1)
qed

lemma lookup_loop_counted_last:
  assumes out: "lookup_loop r envs i c k t = Some (c', res)"
    and last: "map_of (items c) k = None \<or> ctx_err (envs i) \<noteq> None \<or>
       (\<exists>e. map_of (items c) k = Some e \<and> \<not> time_After (checked_at (envs i)) (ttl (heap c ! e)))"
  shows "counted (length (queue c) + 2) c c'"
proof (cases "ctx_err (envs i)")
  case (Some x)
  from lookup_loop_canceled_state [OF Some out] show ?thesis
    by (simp add: counted_def)
next
  case None
  show ?thesis
  proof (cases "map_of (items c) k")
    case miss: None
    let ?m = "missed r (envs i) c k"
    let ?x = "fst (expire (checked_at (envs i)) ?m k (length (heap c)) False)"
    have a: "account ?x (length (heap c)) False = Some c'"
      using out by (auto simp: lookup_loop_miss [of c k envs i r t, OF miss None] split: option.splits)
    note x = expire_counters [where now = "checked_at (envs i)" and c = ?m and k = k
        and e = "length (heap c)" and hit = False]
    note y = account_counters [OF a]
    have "grows (1 + length (queue ?x)) (evictions c) (evictions c')"
      using grows_trans [OF x(3) y(3)] by simp
    then have "grows (length (queue c) + 2) (evictions c) (evictions c')"
      using x(4) by (auto intro: grows_mono)
    then show ?thesis using x(1,2) y(1,2) by (simp add: counted_def)
  next
    case (Some e)
    then have fresh: "\<not> time_After (checked_at (envs i)) (ttl (heap c ! e))"
      using last None by auto
    have "c' = c\<lparr>queue := MoveToFront e (queue c), hits := hits c + 1\<rparr>"
      using out by (simp add: lookup_loop_hit_fresh [of c k e envs i r t, OF Some None fresh])
    then show ?thesis by (simp add: counted_def)
  qed
qed

lemma lookup_loop_counted:
  assumes out: "lookup_loop r envs i c k t = Some (c', res)"
  shows "counted (length (queue c) + 3) c c'"
proof (cases "ctx_err (envs i) = None \<and>
    (\<exists>e. map_of (items c) k = Some e \<and> time_After (checked_at (envs i)) (ttl (heap c ! e)))")
  case False
  then have "counted (length (queue c) + 2) c c'"
    by (intro lookup_loop_counted_last [OF out]) auto
  then show ?thesis by (auto simp: counted_def intro: grows_mono)
next
  case True
  then obtain e where hit: "map_of (items c) k = Some e"
    and stale: "time_After (checked_at (envs i)) (ttl (heap c ! e))"
    and ctx: "ctx_err (envs i) = None" by auto
  let ?c = "c\<lparr>queue := Remove e (MoveToFront e (queue c)),
          items := AList.delete k (items c),
          bytes := Cache.bytes c - cacheItem.bytes (heap c ! e),
          size' := size' c - 1, evictions := evictions c + 1\<rparr>"
  have out': "lookup_loop r envs (Suc i) ?c k t = Some (c', res)"
    using out by (simp add: lookup_loop_hit_stale [of c k e envs i r t, OF hit ctx stale])
  have "counted (length (queue ?c) + 2) ?c c'"
    by (rule lookup_loop_counted_last [OF out']) simp
  moreover have "length (queue ?c) \<le> length (queue c)"
    by (simp add: Remove_def MoveToFront_def length_remove1)
  ultimately have 1: "grows 1 (hits c) (hits c')" "grows 1 (misses c) (misses c')"
    and 2: "grows (length (queue c) + 2) (evictions c + 1) (evictions c')"
    by (auto simp: counted_def intro: grows_mono)
  have "grows (1 + (length (queue c) + 2)) (evictions c) (evictions c')"
    by (rule grows_trans [OF _ 2]) simp
  then have "grows (length (queue c) + 3) (evictions c) (evictions c')"
    by (rule grows_mono) simp
  then show ?thesis using 1 by (simp add: counted_def)
qed


lemma lookup_counted:
  "lookup r envs c nm tgs = Some (c', res) \<Longrightarrow> counted (length (queue c) + 3) c c'"
  by (auto simp: lookup_def Let_def dest: lookup_loop_counted)

lemma run_call_counted:
  assumes "run_call r c call = Some c'"
  shows "counted (length (queue c) + 3) c c'"
proof (cases call)
  case (CallResolve nm envs)
  then obtain x where s: "Resolve r envs c nm = Some (c', x)" using assms by auto
  obtain c1 idx as d er where lk: "lookup r envs c nm [] = Some (c1, (idx, as, d, er))"
    using s by (cases "lookup r envs c nm []") (auto simp: Resolve_def)
  have "hits c' = hits c1 \<and> misses c' = misses c1 \<and> evictions c' = evictions c1"
    using s lk by (auto simp: Resolve_def Let_def split: option.splits if_splits)
  then show ?thesis using lookup_counted [OF lk] by (simp add: counted_def)
next
  case (CallLookup nm tgs envs now)
  then obtain x where s: "Lookup r envs now c nm tgs = Some (c', x)" using assms by auto
  obtain c1 idx as d er where lk: "lookup r envs c nm tgs = Some (c1, (idx, as, d, er))"
    using s by (cases "lookup r envs c nm tgs") (auto simp: Lookup_def)
  have "c' = c1"
    using s lk by (auto simp: Lookup_def Let_def split: option.splits if_splits)
  then show ?thesis using lookup_counted [OF lk] by simp
qed

text \<open>
  Claim C3, as amended.  Over every call of \<open>Resolve\<close> or \<open>Lookup\<close> the cumulative
  counters hits, misses and evictions are only incremented: hits and misses at most once,
  evictions at most once per entry in the queue and three times more; so none of them
  decreases, short of the overflow of an \<open>int64\<close>.  (Size and bytes are gauges: every
  eviction decrements them.)
\<close>

theorem cumulative_counters_grow:
  assumes "run_call r c call = Some c'"
    and "sint (hits c) + 1 < 2 ^ 63"
    and "sint (misses c) + 1 < 2 ^ 63"
    and "sint (evictions c) + int (length (queue c)) + 3 < 2 ^ 63"
  shows "grows 1 (Hits (Stats c)) (Hits (Stats c')) \<and>
         grows 1 (Misses (Stats c)) (Misses (Stats c')) \<and>
         grows (length (queue c) + 3) (Evictions (Stats c)) (Evictions (Stats c')) \<and>
         sint (Hits (Stats c)) \<le> sint (Hits (Stats c')) \<and>
         sint (Misses (Stats c)) \<le> sint (Misses (Stats c')) \<and>
         sint (Evictions (Stats c)) \<le> sint (Evictions (Stats c'))"
proof -
  from run_call_counted [OF assms(1)]
  have g: "grows 1 (hits c) (hits c')" "grows 1 (misses c) (misses c')"
    "grows (length (queue c) + 3) (evictions c) (evictions c')"
    by (simp_all add: counted_def)
  have "sint (hits c) \<le> sint (hits c')"
    by (rule grows_sint [OF g(1)]) (use assms(2) in simp)
  moreover have "sint (misses c) \<le> sint (misses c')"
    by (rule grows_sint [OF g(2)]) (use assms(3) in simp)
  moreover have "sint (evictions c) \<le> sint (evictions c')"
    by (rule grows_sint [OF g(3)]) (use assms(4) in simp)
  ultimately show ?thesis using g by (simp add: Stats_def)
qed

theorem cumulative_counters_grow_witness:
  "\<exists>c'. run_call (registry [''svc'' \<mapsto> [''a'']]) (newCache 0 0 0)
           (CallResolve ''svc''
              (\<lambda>i. \<lparr>perm = [0], fetched_at = 0, checked_at = 0, ctx_err = None\<rparr>)) = Some c' \<and>
        sint (Hits (Stats (newCache 0 0 0))) \<le> sint (Hits (Stats c')) \<and>
        sint (Misses (Stats (newCache 0 0 0))) \<le> sint (Misses (Stats c')) \<and>
        sint (Evictions (Stats (newCache 0 0 0))) \<le> sint (Evictions (Stats c'))"
proof -
  let ?r = "registry [''svc'' \<mapsto> [''a'']]"
  let ?call = "CallResolve ''svc''
              (\<lambda>i. \<lparr>perm = [0], fetched_at = 0, checked_at = 0, ctx_err = None\<rparr>)"
  have "stats_ok (newCache 0 0 0)" by (simp add: stats_ok_def newCache_def)
  from run_call_ok [OF wf_newCache this, of ?r ?call]
  obtain c' where rc: "run_call ?r (newCache 0 0 0) ?call = Some c'" by blast
  have h: "sint (hits (newCache 0 0 0)) + 1 < 2 ^ 63"
    "sint (misses (newCache 0 0 0)) + 1 < 2 ^ 63"
    "sint (evictions (newCache 0 0 0)) + int (length (queue (newCache 0 0 0))) + 3 < 2 ^ 63"
    by (simp_all add: newCache_def)
  from cumulative_counters_grow [OF rc h] rc show ?thesis by blast
qed

subsection \<open>Claim C7\<close>

lemma wf_delete_filter:
  assumes wf: "wf_cache c" and mem: "(k, e) \<in> set (items c)"
  shows "AList.delete k (items c) = filter (\<lambda>(k', e'). e' \<noteq> e) (items c)"
proof -
  note d = wf_cacheD [OF wf]
  have "(k' \<noteq> k) = (e' \<noteq> e)" if a: "(k', e') \<in> set (items c)" for k' e'
  proof -
    have "e' = e \<longleftrightarrow> k' = k"
    proof
      assume "e' = e"
      then show "k' = k" using d(5) [OF a] d(5) [OF mem] by simp
    next
      assume "k' = k"
      then show "e' = e" using a mem d(1) by (metis eq_key_imp_eq_value)
    qed
    then show ?thesis by simp
  qed
  then have "filter (\<lambda>(k', _). k \<noteq> k') (items c) = filter (\<lambda>(k', e'). e' \<noteq> e) (items c)"
    by (intro filter_cong) auto
  then show ?thesis by (simp add: AList.delete_eq)
qed

text \<open>On a well-formed cache with an entry, one turn of the budget loop is \<open>remove_back\<close>.\<close>

lemma wf_loop_body:
  assumes wf: "wf_cache c" and ne: "queue c \<noteq> []"
  shows "c\<lparr>queue := Remove (last (queue c)) (queue c),
            items := AList.delete (key (heap c ! last (queue c))) (items c),
            bytes := Cache.bytes c - cacheItem.bytes (heap c ! last (queue c)),
            size' := size' c - 1,
            evictions := evictions c + 1\<rparr> = remove_back c"
  using wf_delete_filter [OF wf wf_last_mem [OF wf ne]]
    Remove_last [OF wf_cacheD(2) [OF wf] ne]
  by (simp add: remove_back_def Let_def)

lemma wf_remove_back:
  assumes wf: "wf_cache c" and ne: "queue c \<noteq> []"
  shows "wf_cache (remove_back c)"
  unfolding wf_loop_body [OF wf ne, symmetric]
  by (rule wf_remove [OF wf wf_last_mem [OF wf ne]]) simp_all

lemma remove_back_simps [simp]:
  "queue (remove_back c) = butlast (queue c)"
  "size' (remove_back c) = size' c - 1"
  "evictions (remove_back c) = evictions c + 1"
  "Cache.bytes (remove_back c) = Cache.bytes c - cacheItem.bytes (heap c ! last (queue c))"
  "heap (remove_back c) = heap c"
  "hits (remove_back c) = hits c"
  "misses (remove_back c) = misses c"
  by (simp_all add: remove_back_def Let_def)

lemma remove_back_pow:
  "queue ((remove_back ^^ n) c) = take (length (queue c) - n) (queue c) \<and>
   size' ((remove_back ^^ n) c) = size' c - of_nat n \<and>
   evictions ((remove_back ^^ n) c) = evictions c + of_nat n \<and>
   heap ((remove_back ^^ n) c) = heap c \<and>
   hits ((remove_back ^^ n) c) = hits c \<and>
   misses ((remove_back ^^ n) c) = misses c"
proof (induction n)
  case 0
  then show ?case by simp
next
  case (Suc n)
  have "butlast (take (length (queue c) - n) (queue c)) = take (length (queue c) - Suc n) (queue c)"
    by (simp add: butlast_take)
  then show ?case using Suc by simp
qed

lemma evict_oldest_iterates:
  assumes "wf_cache c" and "b = Cache.bytes c"
  shows "\<exists>n \<le> length (queue c).
           evict_oldest maxB b c = Some ((remove_back ^^ n) c) \<and>
           (Cache.bytes ((remove_back ^^ n) c) \<le>s maxB \<or>
            items ((remove_back ^^ n) c) = [] \<and> queue ((remove_back ^^ n) c) = []) \<and>
           (\<forall>m < n. maxB <s Cache.bytes ((remove_back ^^ m) c) \<and>
                    queue ((remove_back ^^ m) c) \<noteq> [])"
  using assms
proof (induction maxB b c rule: evict_oldest.induct)
  case (1 maxB b cache)
  note wf = 1(2) and b = 1(3)
  show ?case
  proof (cases "maxB <s b \<and> items cache \<noteq> []")
    case False
    have "evict_oldest maxB b cache = Some cache"
      using False by (subst evict_oldest.simps) auto
    moreover have "Cache.bytes cache \<le>s maxB \<or> items cache = [] \<and> queue cache = []"
      using False b wf_queue_empty_iff [OF wf] by (auto simp: word_sless_alt word_sle_eq)
    ultimately show ?thesis by (intro exI [of _ 0]) simp
  next
    case True
    then have ne: "queue cache \<noteq> []" using wf_queue_empty_iff [OF wf] by simp
    let ?e = "last (queue cache)"
    let ?c' = "cache\<lparr>queue := Remove ?e (queue cache),
                         items := AList.delete (key (heap cache ! ?e)) (items cache),
                         bytes := Cache.bytes cache - cacheItem.bytes (heap cache ! ?e),
                         size' := size' cache - 1,
                         evictions := evictions cache + 1\<rparr>"
    have body: "?c' = remove_back cache" by (rule wf_loop_body [OF wf ne])
    have wf': "wf_cache ?c'" unfolding body by (rule wf_remove_back [OF wf ne])
    have unf: "evict_oldest maxB b cache =
        evict_oldest maxB (Cache.bytes cache - cacheItem.bytes (heap cache ! ?e)) ?c'"
      using True ne by (subst evict_oldest.simps) (simp add: Let_def)
    from 1(1) [OF _ _ _ refl refl refl wf'] True ne
    obtain n where n: "n \<le> length (queue ?c')"
      "evict_oldest maxB (Cache.bytes cache - cacheItem.bytes (heap cache ! ?e)) ?c'
         = Some ((remove_back ^^ n) ?c')"
      "Cache.bytes ((remove_back ^^ n) ?c') \<le>s maxB \<or>
         items ((remove_back ^^ n) ?c') = [] \<and> queue ((remove_back ^^ n) ?c') = []"
      "\<forall>m < n. maxB <s Cache.bytes ((remove_back ^^ m) ?c') \<and>
                queue ((remove_back ^^ m) ?c') \<noteq> []"
      by auto
    have pow: "(remove_back ^^ m) ?c' = (remove_back ^^ Suc m) cache" for m
      unfolding body by (simp add: funpow_swap1)
    have "length (Remove ?e (queue cache)) < length (queue cache)"
      using ne by (simp add: Remove_def length_remove1)
    then have len: "Suc n \<le> length (queue cache)"
      using n(1) by simp
    have below: "maxB <s Cache.bytes ((remove_back ^^ m) cache) \<and>
        queue ((remove_back ^^ m) cache) \<noteq> []" if "m < Suc n" for m
    proof (cases m)
      case 0
      then show ?thesis using True b ne by simp
    next
      case (Suc m')
      then have "m' < n" using that by simp
      then show ?thesis using n(4) Suc unfolding pow by simp
    qed
    show ?thesis
      apply (intro exI [of _ "Suc n"] conjI)
      using len apply simp
      using unf n(2) unfolding pow apply simp
      using n(3) unfolding pow apply simp
      using below apply blast
      done
  qed
qed


text \<open>
  The statistics update and the budget loop of a miss, on a well-formed cache: the result
  is that of removing the entry at the back of the queue \<open>n\<close> times, for the least \<open>n\<close>
  after which the byte counter is within the budget or the cache is empty.
\<close>

lemma account_removes_back:
  assumes "wf_cache c"
  shows "\<exists>n \<le> length (queue c).
           (let c0 = c\<lparr>size' := size' c + 1, misses := misses c + 1,
                        bytes := Cache.bytes c + cacheItem.bytes (heap c ! e)\<rparr>;
                c' = (remove_back ^^ n) c0
            in account c e False = Some c' \<and>
               (Cache.bytes c' \<le>s maxBytes c \<or> items c' = [] \<and> queue c' = []) \<and>
               (\<forall>m < n. maxBytes c <s Cache.bytes ((remove_back ^^ m) c0) \<and>
                        queue ((remove_back ^^ m) c0) \<noteq> []) \<and>
               queue c' = take (length (queue c) - n) (queue c) \<and>
               size' c' = size' c + 1 - of_nat n \<and>
               evictions c' = evictions c + of_nat n \<and>
               maxBytes c = (if 0 <s MaxBytes c then MaxBytes c else 1024 * 1024))"
proof -
  let ?c0 = "c\<lparr>size' := size' c + 1, misses := misses c + 1,
                bytes := Cache.bytes c + cacheItem.bytes (heap c ! e)\<rparr>"
  have wf0: "wf_cache ?c0" using assms by (simp add: wf_cache_def)
  have mb: "maxBytes ?c0 = maxBytes c" by (simp add: maxBytes_def)
  from evict_oldest_iterates [OF wf0 refl, of "maxBytes c"]
  obtain n where n: "n \<le> length (queue ?c0)"
    "evict_oldest (maxBytes c) (Cache.bytes ?c0) ?c0 = Some ((remove_back ^^ n) ?c0)"
    "Cache.bytes ((remove_back ^^ n) ?c0) \<le>s maxBytes c \<or>
       items ((remove_back ^^ n) ?c0) = [] \<and> queue ((remove_back ^^ n) ?c0) = []"
    "\<forall>m < n. maxBytes c <s Cache.bytes ((remove_back ^^ m) ?c0) \<and>
              queue ((remove_back ^^ m) ?c0) \<noteq> []"
    by blast
  have a: "account c e False = Some ((remove_back ^^ n) ?c0)"
    using n(2) by (simp add: account_def Let_def)
  note p = remove_back_pow [of n ?c0]
  show ?thesis
    apply (intro exI [of _ n] conjI)
    using n(1) apply simp
    unfolding Let_def
    apply (intro conjI)
    using a apply simp
    using n(3) apply simp
    using n(4) apply simp
    using p apply simp
    using p apply simp
    using p apply simp
    apply (simp add: maxBytes_def)
    done
qed

subsection \<open>Claim C9\<close>

text \<open>
  Claim C9.  One caller at a time, not cancelled, on a well-formed cache:
  a caller that misses returns the entry it has fetched in the same turn of the loop, also
  when that entry is found expired, in which case it has left the map;
  a caller that hits a fresh entry returns it;
  a caller that hits an expired entry goes round the loop again, on a cache without the
  key, and returns the entry fetched in that second turn.
  So the loop returns in every case, after at most two turns.
\<close>

theorem retry_only_on_stale_hit:
  assumes wf: "wf_cache c"
    and ctx: "ctx_err (envs i) = None" "ctx_err (envs (Suc i)) = None"
  shows
    "(map_of (items c) k = None \<longrightarrow>
        (\<exists>c'. lookup_loop r envs i c k t =
                 Some (c', (Some (length (heap c)), addrs (fetched_item r (envs i) c k),
                            ttl (fetched_item r (envs i) c k),
                            err (fetched_item r (envs i) c k))) \<and>
              heap c' = heap c @ [fetched_item r (envs i) c k] \<and>
              (time_After (checked_at (envs i)) (ttl (fetched_item r (envs i) c k))
                 \<longrightarrow> map_of (items c') k = None))) \<and>
     (\<forall>e. map_of (items c) k = Some e \<and>
          \<not> time_After (checked_at (envs i)) (ttl (heap c ! e)) \<longrightarrow>
        lookup_loop r envs i c k t =
          Some (c\<lparr>queue := MoveToFront e (queue c), hits := hits c + 1\<rparr>,
                (Some e, addrs (heap c ! e), ttl (heap c ! e), err (heap c ! e)))) \<and>
     (\<forall>e. map_of (items c) k = Some e \<and>
          time_After (checked_at (envs i)) (ttl (heap c ! e)) \<longrightarrow>
        lookup_loop r envs i c k t =
          lookup_loop r envs (Suc i)
            (c\<lparr>queue := Remove e (MoveToFront e (queue c)),
               items := AList.delete k (items c),
               bytes := Cache.bytes c - cacheItem.bytes (heap c ! e),
               size' := size' c - 1, evictions := evictions c + 1\<rparr>) k t \<and>
        (\<exists>c'. lookup_loop r envs i c k t =
                 Some (c', (Some (length (heap c)),
                            addrs (fetched_item r (envs (Suc i)) c k),
                            ttl (fetched_item r (envs (Suc i)) c k),
                            err (fetched_item r (envs (Suc i)) c k))) \<and>
              heap c' = heap c @ [fetched_item r (envs (Suc i)) c k]))"
proof (intro conjI impI allI)
  assume miss: "map_of (items c) k = None"
  let ?F = "fetched_item r (envs i) c k"
  from lookup_loop_miss_result [of c k envs i r t] wf miss ctx(1)
  obtain c' where c': "lookup_loop r envs i c k t =
      Some (c', (Some (length (heap c)), addrs ?F, ttl ?F, err ?F))"
    "heap c' = heap c @ [?F]"
    by blast
  have "map_of (items c') k = None" if stale: "time_After (checked_at (envs i)) (ttl ?F)"
  proof (rule ccontr)
    assume "map_of (items c') k \<noteq> None"
    then obtain e' where e': "map_of (items c') k = Some e'" by auto
    let ?m = "missed r (envs i) c k"
    let ?x = "fst (expire (checked_at (envs i)) ?m k (length (heap c)) False)"
    have a: "account ?x (length (heap c)) False = Some c'"
      using c'(1)
      by (auto simp: lookup_loop_miss [of c k envs i r t, OF miss ctx(1)] split: option.splits)
    have "map_of (items ?x) k = Some e'" using account_items [OF a e'] .
    moreover have "map_of (items ?x) k = None"
      using stale by (simp add: expire_stale [of "checked_at (envs i)" ?m "length (heap c)" k False])
    ultimately show False by simp
  qed
  then show "\<exists>c'. lookup_loop r envs i c k t =
                 Some (c', (Some (length (heap c)), addrs ?F, ttl ?F, err ?F)) \<and>
              heap c' = heap c @ [?F] \<and>
              (time_After (checked_at (envs i)) (ttl ?F) \<longrightarrow> map_of (items c') k = None)"
    using c' by blast
next
  fix e
  assume "map_of (items c) k = Some e \<and> \<not> time_After (checked_at (envs i)) (ttl (heap c ! e))"
  then show "lookup_loop r envs i c k t =
          Some (c\<lparr>queue := MoveToFront e (queue c), hits := hits c + 1\<rparr>,
                (Some e, addrs (heap c ! e), ttl (heap c ! e), err (heap c ! e)))"
    using ctx(1) by (simp add: lookup_loop_hit_fresh [of c k e envs i r t])
next
  fix e
  assume "map_of (items c) k = Some e \<and> time_After (checked_at (envs i)) (ttl (heap c ! e))"
  then show "lookup_loop r envs i c k t =
          lookup_loop r envs (Suc i)
            (c\<lparr>queue := Remove e (MoveToFront e (queue c)),
               items := AList.delete k (items c),
               bytes := Cache.bytes c - cacheItem.bytes (heap c ! e),
               size' := size' c - 1, evictions := evictions c + 1\<rparr>) k t"
    using ctx(1) by (simp add: lookup_loop_hit_stale [of c k e envs i r t])
next
  fix e
  assume a: "map_of (items c) k = Some e \<and> time_After (checked_at (envs i)) (ttl (heap c ! e))"
  from lookup_loop_stale_result [of c k e envs i r t] wf a ctx
  show "\<exists>c'. lookup_loop r envs i c k t =
                 Some (c', (Some (length (heap c)),
                            addrs (fetched_item r (envs (Suc i)) c k),
                            ttl (fetched_item r (envs (Suc i)) c k),
                            err (fetched_item r (envs (Suc i)) c k))) \<and>
              heap c' = heap c @ [fetched_item r (envs (Suc i)) c k]"
    by blast
qed

theorem retry_only_on_stale_hit_witness:
  "wf_cache (newCache 0 1 0) \<and>
   time_After 5 (ttl (fetched_item (registry [''svc'' \<mapsto> [''a'']])
                       \<lparr>perm = [0], fetched_at = 0, checked_at = 5, ctx_err = None\<rparr>
                       (newCache 0 1 0) (makeCacheKey ''svc'' []))) \<and>
   (\<exists>c'. lookup_loop (registry [''svc'' \<mapsto> [''a'']])
            (\<lambda>i. \<lparr>perm = [0], fetched_at = 0, checked_at = 5, ctx_err = None\<rparr>) 0
            (newCache 0 1 0) (makeCacheKey ''svc'' []) []
          = Some (c', (Some 0, [''a''], 1, None)) \<and>
         map_of (items c') (makeCacheKey ''svc'' []) = None)"
proof -
  let ?r = "registry [''svc'' \<mapsto> [''a'']]"
  let ?en = "\<lparr>perm = [0], fetched_at = 0, checked_at = 5, ctx_err = None\<rparr>"
  let ?envs = "\<lambda>i::nat. ?en"
  let ?k = "makeCacheKey ''svc'' []"
  let ?F = "fetched_item ?r ?en (newCache 0 1 0) ?k"
  have F: "addrs ?F = [''a'']" "ttl ?F = 1" "err ?F = None" by code_simp+
  have st: "time_After 5 (ttl ?F)" by code_simp
  have miss: "map_of (items (newCache 0 1 0)) ?k = None" by (simp add: newCache_def)
  have ctx: "ctx_err (?envs 0) = None" "ctx_err (?envs (Suc 0)) = None" by simp_all
  from retry_only_on_stale_hit [of "newCache 0 1 0" ?envs 0 ?k ?r "[]", OF wf_newCache ctx]
  have "\<exists>c'. lookup_loop ?r ?envs 0 (newCache 0 1 0) ?k [] =
          Some (c', (Some (length (heap (newCache 0 1 0))), addrs ?F, ttl ?F, err ?F)) \<and>
        heap c' = heap (newCache 0 1 0) @ [?F] \<and>
        (time_After (checked_at ?en) (ttl ?F) \<longrightarrow> map_of (items c') ?k = None)"
    using miss by blast
  then obtain c' where "lookup_loop ?r ?envs 0 (newCache 0 1 0) ?k [] =
          Some (c', (Some (length (heap (newCache 0 1 0))), addrs ?F, ttl ?F, err ?F))"
    "map_of (items c') ?k = None"
    using st by auto
  then have "lookup_loop ?r ?envs 0 (newCache 0 1 0) ?k [] = Some (c', (Some 0, [''a''], 1, None))
      \<and> map_of (items c') ?k = None"
    unfolding F by (simp add: newCache_def)
  then show ?thesis using wf_newCache st by blast
qed

subsection \<open>Claim C4\<close>

lemma nth_index_update [simp]:
  "addrs ((heap c)[p := (heap c ! p)\<lparr>index := j\<rparr>] ! q) = addrs (heap c ! q)"
  "err ((heap c)[p := (heap c ! p)\<lparr>index := j\<rparr>] ! q) = err (heap c ! q)"
  "ttl ((heap c)[p := (heap c ! p)\<lparr>index := j\<rparr>] ! q) = ttl (heap c ! q)"
  "key ((heap c)[p := (heap c ! p)\<lparr>index := j\<rparr>] ! q) = key (heap c ! q)"
  by (cases "q = p"; cases "p < length (heap c)"; simp add: list_update_beyond)+

lemma Resolve_hit_fresh:
  assumes hit: "map_of (items c) (makeCacheKey nm []) = Some e"
    and ctx: "ctx_err (envs 0) = None"
    and fresh: "\<not> time_After (checked_at (envs 0)) (ttl (heap c ! e))"
    and ok: "err (heap c ! e) = None"
    and k: "(word_of_nat (length (addrs (heap c ! e))) :: 64 word) \<noteq> 0"
  shows "Resolve r envs c nm =
     Some (c\<lparr>queue := MoveToFront e (queue c), hits := hits c + 1,
              heap := (heap c)[e := (heap c ! e)\<lparr>index := index (heap c ! e) + 1\<rparr>]\<rparr>,
           Inr (addrs (heap c ! e) !
                  unat ((index (heap c ! e) + 1) mod word_of_nat (length (addrs (heap c ! e))))))"
proof -
  have lk: "lookup r envs c nm [] = lookup_loop r envs 0 c (makeCacheKey nm []) []"
    by (simp add: lookup_def sortedStrings_sort)
  show ?thesis
    using ok k
    by (simp add: Resolve_def lk Let_def
          lookup_loop_hit_fresh [of c "makeCacheKey nm []" e envs 0 r "[]", OF hit ctx fresh])
qed


lemma Resolves_fresh:
  assumes "map_of (items c) (makeCacheKey nm []) = Some e"
    and "e < length (heap c)"
    and "err (heap c ! e) = None"
    and "addrs (heap c ! e) = as"
    and "(word_of_nat (length as) :: 64 word) \<noteq> 0"
    and "\<forall>envs \<in> set envss. ctx_err (envs 0) = None \<and>
           \<not> time_After (checked_at (envs 0)) (ttl (heap c ! e))"
  shows "\<exists>c'. Resolves r c nm envss =
            Some (c', map (\<lambda>j. Inr (as ! unat ((index (heap c ! e) + of_nat (Suc j))
                                              mod word_of_nat (length as))))
                        [0..<length envss]) \<and>
          map_of (items c') (makeCacheKey nm []) = Some e \<and> e < length (heap c') \<and>
          err (heap c' ! e) = None \<and> addrs (heap c' ! e) = as \<and>
          ttl (heap c' ! e) = ttl (heap c ! e) \<and>
          index (heap c' ! e) = index (heap c ! e) + of_nat (length envss)"
  using assms
proof (induction envss arbitrary: c)
  case Nil
  then show ?case by simp
next
  case (Cons envs envss)
  let ?idx = "index (heap c ! e)"
  let ?c1 = "c\<lparr>queue := MoveToFront e (queue c), hits := hits c + 1,
              heap := (heap c)[e := (heap c ! e)\<lparr>index := ?idx + 1\<rparr>]\<rparr>"
  have r1: "Resolve r envs c nm =
      Some (?c1, Inr (as ! unat ((?idx + 1) mod word_of_nat (length as))))"
    using Resolve_hit_fresh [of c nm e envs r] Cons.prems by simp
  have i1: "index (heap ?c1 ! e) = ?idx + 1" using Cons.prems(2) by simp
  have "\<exists>c'. Resolves r ?c1 nm envss =
            Some (c', map (\<lambda>j. Inr (as ! unat ((index (heap ?c1 ! e) + of_nat (Suc j))
                                              mod word_of_nat (length as))))
                        [0..<length envss]) \<and>
          map_of (items c') (makeCacheKey nm []) = Some e \<and> e < length (heap c') \<and>
          err (heap c' ! e) = None \<and> addrs (heap c' ! e) = as \<and>
          ttl (heap c' ! e) = ttl (heap ?c1 ! e) \<and>
          index (heap c' ! e) = index (heap ?c1 ! e) + of_nat (length envss)"
    by (rule Cons.IH) (use Cons.prems in simp_all)
  then obtain c' where c': "Resolves r ?c1 nm envss =
            Some (c', map (\<lambda>j. Inr (as ! unat ((?idx + 1 + of_nat (Suc j))
                                              mod word_of_nat (length as))))
                        [0..<length envss])"
     "map_of (items c') (makeCacheKey nm []) = Some e" "e < length (heap c')"
     "err (heap c' ! e) = None" "addrs (heap c' ! e) = as"
     "ttl (heap c' ! e) = ttl (heap c ! e)"
     "index (heap c' ! e) = ?idx + 1 + of_nat (length envss)"
    unfolding i1 by auto
  have shift: "map (\<lambda>j. Inr (as ! unat ((?idx + of_nat (Suc j)) mod word_of_nat (length as))))
          [0..<length (envs # envss)] =
        Inr (as ! unat ((?idx + 1) mod word_of_nat (length as))) #
        map (\<lambda>j. Inr (as ! unat ((?idx + 1 + of_nat (Suc j)) mod word_of_nat (length as))))
          [0..<length envss]"
    (is "map ?f _ = _ # map ?g _")
  proof -
    have "[0..<length (envs # envss)] = 0 # map Suc [0..<length envss]"
      by (simp add: upt_conv_Cons map_Suc_upt del: upt_Suc)
    moreover have "?f (Suc j) = ?g j" for j by (simp add: ac_simps)
    ultimately show ?thesis by (simp add: comp_def del: upt_Suc)
  qed
  show ?case
    unfolding shift
    using r1 c' by (intro exI [of _ c']) (simp add: ac_simps)
qed


lemma pick_index:
  fixes idx :: "64 word"
  assumes "k < 2 ^ 64" and "unat idx + m < 2 ^ 64 \<or> k dvd 2 ^ 64"
  shows "unat ((idx + of_nat m) mod word_of_nat k) = (unat idx + m) mod k"
proof -
  have k: "unat (word_of_nat k :: 64 word) = k"
    using assms(1) by (simp add: unat_of_nat)
  have s: "unat (idx + of_nat m) = (unat idx + m) mod 2 ^ 64"
    by (simp add: unat_word_ariths unat_of_nat mod_add_right_eq)
  have "(unat idx + m) mod 2 ^ 64 mod k = (unat idx + m) mod k"
    using assms(2)
  proof
    assume "unat idx + m < 2 ^ 64"
    then show ?thesis by simp
  next
    assume "k dvd 2 ^ 64"
    then show ?thesis by (rule mod_mod_cancel)
  qed
  then show ?thesis by (simp add: unat_mod k s)
qed

lemma rotation_inj:
  fixes a k :: nat
  shows "inj_on (\<lambda>j. (a + j) mod k) {0..<k}"
proof (rule inj_onI)
  fix i j assume i: "i \<in> {0..<k}" and j: "j \<in> {0..<k}"
    and eq: "(a + i) mod k = (a + j) mod k"
  have *: "x = y" if "x \<le> y" "y < k" "(a + x) mod k = (a + y) mod k" for x y :: nat
  proof -
    have "(a + y) mod k = (a + x) mod k" using that(3) by simp
    then have "k dvd (a + y) - (a + x)"
      using that(1) by (subst (asm) mod_eq_dvd_iff_nat) simp_all
    then have "k dvd y - x" by simp
    moreover have "y - x < k" using that by simp
    ultimately have "y - x = 0" by (meson dvd_imp_le not_less zero_less_iff_neq_zero)
    then show ?thesis using that by simp
  qed
  show "i = j"
  proof (cases "i \<le> j")
    case True
    then show ?thesis using * [of i j] j eq by simp
  next
    case False
    then show ?thesis using * [of j i] i eq by simp
  qed
qed

lemma rotation_mset:
  assumes "0 < length as"
  shows "mset (map (\<lambda>j. as ! ((a + j) mod length as)) [0..<length as]) = mset as"
proof -
  let ?k = "length as"
  let ?f = "\<lambda>j. (a + j) mod ?k"
  have sub: "?f ` {0..<?k} \<subseteq> {0..<?k}" using assms by auto
  have img: "?f ` {0..<?k} = {0..<?k}"
    by (rule endo_inj_surj [OF _ sub rotation_inj]) simp
  have p: "image_mset ?f (mset_set {0..<?k}) = mset_set {0..<?k}"
    using image_mset_mset_set [OF rotation_inj, of a ?k] by (simp add: img)
  have "mset (map (\<lambda>j. as ! ?f j) [0..<?k]) =
      image_mset ((!) as) (image_mset ?f (mset_set {0..<?k}))"
    by (simp add: comp_def multiset.map_comp mset_upt)
  also have "\<dots> = image_mset ((!) as) (mset_set {0..<?k})" by (simp only: p)
  also have "\<dots> = mset (map ((!) as) [0..<?k])" by (simp add: mset_upt)
  also have "\<dots> = mset as" by (simp only: map_nth)
  finally show ?thesis .
qed

lemma window_upt:
  assumes "j + k \<le> n"
  shows "take k (drop j (map f [0..<n])) = map (\<lambda>i. f (j + i)) [0..<k]"
proof -
  have "take k (drop j [0..<n]) = [j..<j + k]"
    using assms by (simp add: drop_upt take_upt)
  also have "\<dots> = map (\<lambda>i. j + i) [0..<k]"
    by (simp add: map_add_upt add.commute)
  finally show ?thesis by (simp add: take_map drop_map comp_def)
qed

text \<open>
  Claim C4.  Let the cache hold an entry for the name with \<open>k \<ge> 1\<close> addresses and no
  error, and let a run of consecutive \<open>Resolve\<close> calls on the name all read the clock
  before the expiry, none cancelled.  Then all calls succeed and every window of \<open>k\<close>
  consecutive answers holds each of the \<open>k\<close> addresses exactly once; the entry stays in
  place, its index advanced by the number of calls.  The index is a 64-bit counter that
  starts at 0 when the entry is created and advances by one per call: the statement is
  for the runs in which it stays below \<open>2^64\<close>, and for any run when \<open>k\<close> divides \<open>2^64\<close>.
\<close>

theorem round_robin:
  assumes wf: "wf_cache c"
    and hit: "map_of (items c) (makeCacheKey nm []) = Some e"
    and ok: "err (heap c ! e) = None"
    and as: "addrs (heap c ! e) = as" "as \<noteq> []" "length as < 2 ^ 63"
    and fresh: "\<forall>envs \<in> set envss. ctx_err (envs 0) = None \<and>
           \<not> time_After (checked_at (envs 0)) (ttl (heap c ! e))"
    and nowrap: "unat (index (heap c ! e)) + length envss < 2 ^ 64 \<or> length as dvd 2 ^ 64"
  shows "\<exists>c' xs. Resolves r c nm envss = Some (c', map Inr xs) \<and>
           length xs = length envss \<and>
           (\<forall>j. j + length as \<le> length envss \<longrightarrow>
                mset (take (length as) (drop j xs)) = mset as) \<and>
           map_of (items c') (makeCacheKey nm []) = Some e \<and>
           addrs (heap c' ! e) = as \<and> err (heap c' ! e) = None \<and>
           ttl (heap c' ! e) = ttl (heap c ! e) \<and>
           index (heap c' ! e) = index (heap c ! e) + of_nat (length envss)"
proof -
  let ?k = "length as"
  let ?idx = "index (heap c ! e)"
  have e: "e < length (heap c)"
    using wf_cacheD(4) [OF wf map_of_SomeD [OF hit]] .
  have k64: "?k < 2 ^ 64" using as(3) by simp
  have k0: "(word_of_nat ?k :: 64 word) \<noteq> 0"
  proof
    assume "(word_of_nat ?k :: 64 word) = 0"
    then have "unat (word_of_nat ?k :: 64 word) = 0" by simp
    then show False using k64 as(2) by (simp add: unat_of_nat)
  qed
  let ?pick = "\<lambda>j. as ! ((unat ?idx + Suc j) mod ?k)"
  have pick: "as ! unat ((?idx + of_nat (Suc j)) mod word_of_nat ?k) = ?pick j"
    if "j < length envss" for j
  proof -
    have "unat ?idx + Suc j < 2 ^ 64 \<or> ?k dvd 2 ^ 64"
      using nowrap that by auto
    from pick_index [OF k64 this] show ?thesis by simp
  qed
  from Resolves_fresh [OF hit e ok as(1) k0 fresh, of r]
  obtain c' where c': "Resolves r c nm envss =
            Some (c', map (\<lambda>j. Inr (as ! unat ((?idx + of_nat (Suc j)) mod word_of_nat ?k)))
                        [0..<length envss])"
     "map_of (items c') (makeCacheKey nm []) = Some e"
     "err (heap c' ! e) = None" "addrs (heap c' ! e) = as"
     "ttl (heap c' ! e) = ttl (heap c ! e)"
     "index (heap c' ! e) = ?idx + of_nat (length envss)"
    by blast
  let ?xs = "map ?pick [0..<length envss]"
  have eq: "map (\<lambda>j. Inr (as ! unat ((?idx + of_nat (Suc j)) mod word_of_nat ?k)))
              [0..<length envss] = map Inr ?xs"
    using pick by (simp add: comp_def)
  have win: "mset (take ?k (drop j ?xs)) = mset as" if "j + ?k \<le> length envss" for j
  proof -
    have "take ?k (drop j ?xs) = map (\<lambda>i. ?pick (j + i)) [0..<?k]"
      by (rule window_upt [OF that])
    also have "\<dots> = map (\<lambda>i. as ! ((unat ?idx + Suc j + i) mod ?k)) [0..<?k]"
      by (simp add: ac_simps)
    finally show ?thesis
      using rotation_mset [of as "unat ?idx + Suc j"] as(2) by simp
  qed
  show ?thesis
    apply (intro exI [of _ c'] exI [of _ ?xs] conjI)
    using c'(1) eq apply simp
    apply simp
    using win apply blast
    using c' apply simp_all
    done
qed


lemma svc_cache_facts:
  "wf_cache (svc_cache idx h)"
  "map_of (items (svc_cache idx h)) (makeCacheKey ''svc'' []) = Some 0"
  "0 < length (heap (svc_cache idx h))"
  "MoveToFront 0 (queue (svc_cache idx h)) = queue (svc_cache idx h)"
  "err (heap (svc_cache idx h) ! 0) = None"
  "addrs (heap (svc_cache idx h) ! 0) = [''a'', ''b'', ''c'']"
  "index (heap (svc_cache idx h) ! 0) = idx"
  "ctx_err (svc_env i) = None"
  "\<not> time_After (checked_at (svc_env i)) (ttl (heap (svc_cache idx h) ! 0))"
  by (simp_all add: svc_cache_def svc_env_def wf_cache_def MoveToFront_def time_After_def)

theorem round_robin_witness:
  "map_option fst (Resolve svc_registry svc_env (newCache 0 0 0) ''svc'') = Some (svc_cache 1 0) \<and>
   wf_cache (svc_cache 1 0) \<and>
   map_option snd (Resolves svc_registry (svc_cache 1 0) ''svc'' [svc_env, svc_env, svc_env])
     = Some [Inr ''c'', Inr ''a'', Inr ''b''] \<and>
   (\<exists>c' xs. Resolves svc_registry (svc_cache 1 0) ''svc'' [svc_env, svc_env, svc_env]
               = Some (c', map Inr xs) \<and>
            mset xs = mset [''a'', ''b'', ''c''])"
proof -
  have st: "map_option fst (Resolve svc_registry svc_env (newCache 0 0 0) ''svc'')
      = Some (svc_cache 1 0)"
    by code_simp
  have ev: "map_option snd (Resolves svc_registry (svc_cache 1 0) ''svc''
      [svc_env, svc_env, svc_env]) = Some [Inr ''c'', Inr ''a'', Inr ''b'']"
    by code_simp
  have fresh: "\<forall>envs \<in> set [svc_env, svc_env, svc_env]. ctx_err (envs 0) = None \<and>
           \<not> time_After (checked_at (envs 0)) (ttl (heap (svc_cache 1 0) ! 0))"
    by (simp add: svc_cache_facts)
  have nowrap: "unat (index (heap (svc_cache 1 0) ! 0)) + length [svc_env, svc_env, svc_env]
      < 2 ^ 64 \<or> length [''a'', ''b'', ''c''] dvd (2 ^ 64 :: nat)"
    by (simp add: svc_cache_facts)
  from round_robin [OF svc_cache_facts(1,2,5,6) _ _ fresh nowrap, of svc_registry]
  obtain c' xs where x: "Resolves svc_registry (svc_cache 1 0) ''svc'' [svc_env, svc_env, svc_env]
      = Some (c', map Inr xs)" "length xs = 3"
    "\<forall>j. j + 3 \<le> (3::nat) \<longrightarrow> mset (take 3 (drop j xs)) = mset [''a'', ''b'', ''c'']"
    by auto
  from x(3) have "mset (take 3 (drop 0 xs)) = mset [''a'', ''b'', ''c'']" by simp
  then have "mset xs = mset [''a'', ''b'', ''c'']" using x(2) by simp
  then show ?thesis using st svc_cache_facts(1) ev x(1) by blast
qed

section \<open>Concurrent callers\<close>

lemma item_lookup_key [simp]: "key (item_lookup r a b p n it) = key it"
  by (simp add: item_lookup_def Let_def split: prod.splits)

lemma item_lookup_ready [simp]: "ready (item_lookup r a b p n it)"
  by (simp add: item_lookup_def Let_def split: prod.splits)

lemma newCacheItem_simps [simp]:
  "key (newCacheItem k t) = k" "\<not> ready (newCacheItem k t)"
  by (simp_all add: newCacheItem_def)

lemma newCacheItem_tags: "newCacheItem k t = newCacheItem k []"
  by (simp add: newCacheItem_def)

lemma heap_grows_refl: "heap c' = heap c \<Longrightarrow> heap_grows c c'"
  by (simp add: heap_grows_def)

lemma caller_ok_mono:
  "caller_ok c k p \<Longrightarrow> heap_grows c c' \<Longrightarrow> caller_ok c' k p"
  by (induction c k p rule: caller_ok.induct) (auto simp: heap_grows_def)

lemma heap_grows_enter: "heap_grows c (fst (enter c k t))"
  by (auto simp: enter_def Let_def heap_grows_def nth_append split: option.splits)

lemma heap_grows_fetch:
  "\<not> ready (heap c ! e) \<Longrightarrow> heap_grows c (fetch r p now c e)"
  by (cases "e < length (heap c)")
     (auto simp: fetch_def heap_grows_def nth_list_update list_update_beyond)

lemma heap_grows_expire: "heap_grows c (fst (expire now c k e hit))"
  by (rule heap_grows_refl) simp

lemma update_stats_heap [simp]: "heap (fst (update_stats c e hit)) = heap c"
  by (simp add: update_stats_def Let_def)

lemma evict_turn_heap [simp]: "heap (fst (evict_turn c e b)) = heap c"
  by (simp add: evict_turn_def Let_def)

lemma wf_update_stats: "wf_cache c \<Longrightarrow> wf_cache (fst (update_stats c e hit))"
  by (simp add: update_stats_def Let_def wf_cache_def)

lemma wf_evict_turn:
  assumes wf: "wf_cache c"
  shows "wf_cache (fst (evict_turn c e b)) \<and> snd (evict_turn c e b) \<noteq> Panicked"
proof (cases "maxBytes c <s b \<and> items c \<noteq> []")
  case False
  then show ?thesis using wf by (auto simp: evict_turn_def)
next
  case True
  then have ne: "queue c \<noteq> []" using wf_queue_empty_iff [OF wf] by simp
  have "wf_cache (c\<lparr>queue := Remove (last (queue c)) (queue c),
            items := AList.delete (key (heap c ! last (queue c))) (items c),
            bytes := Cache.bytes c - cacheItem.bytes (heap c ! last (queue c)),
            size' := size' c - 1,
            evictions := evictions c + 1\<rparr>)"
    by (rule wf_remove [OF wf wf_last_mem [OF wf ne]]) simp_all
  then show ?thesis using True ne by (simp add: evict_turn_def Let_def)
qed


lemma enter_config [simp]:
  "MinTTL (fst (enter c k t)) = MinTTL c" "MaxTTL (fst (enter c k t)) = MaxTTL c"
  "MaxBytes (fst (enter c k t)) = MaxBytes c"
  by (simp_all add: enter_def Let_def split: option.splits)

lemma update_stats_config [simp]:
  "MinTTL (fst (update_stats c e hit)) = MinTTL c" "MaxTTL (fst (update_stats c e hit)) = MaxTTL c"
  "MaxBytes (fst (update_stats c e hit)) = MaxBytes c"
  by (simp_all add: update_stats_def Let_def)

lemma evict_turn_config [simp]:
  "MinTTL (fst (evict_turn c e b)) = MinTTL c" "MaxTTL (fst (evict_turn c e b)) = MaxTTL c"
  "MaxBytes (fst (evict_turn c e b)) = MaxBytes c"
  by (simp_all add: evict_turn_def Let_def)

lemma fetch_config [simp]:
  "MinTTL (fetch r p now c e) = MinTTL c" "MaxTTL (fetch r p now c e) = MaxTTL c"
  "MaxBytes (fetch r p now c e) = MaxBytes c"
  by (simp_all add: fetch_def)

lemma enter_heap:
  "heap (fst (enter c k t)) = heap c \<or> heap (fst (enter c k t)) = heap c @ [newCacheItem k []]"
  by (auto simp: enter_def Let_def newCacheItem_def split: option.splits)

lemma enter_caller_ok:
  assumes "wf_cache c"
  shows "caller_ok (fst (enter c k t)) k
           (AtSelect (fst (snd (enter c k t))) (snd (snd (enter c k t))))"
proof (cases "map_of (items c) k")
  case None
  then show ?thesis by (simp add: enter_miss)
next
  case (Some e)
  then have "(k, e) \<in> set (items c)" by (rule map_of_SomeD)
  then show ?thesis using wf_cacheD(4,5) [OF assms] Some by (simp add: enter_hit)
qed

lemma caller_step_Some:
  assumes "caller_step c k t p a = Some (c', p')"
  shows "(p = AtLock \<and> a = Lock \<and> c' = fst (enter c k t) \<and>
          p' = AtSelect (fst (snd (enter c k t))) (snd (snd (enter c k t)))) \<or>
         (\<exists>elem hit x. p = AtSelect elem hit \<and> a = Cancel x \<and> c' = c \<and>
            p' = Returned (None, [], zeroTime, Some x)) \<or>
         (\<exists>elem hit now. p = AtSelect elem hit \<and> a = Wake now \<and> ready (heap c ! elem) \<and>
            c' = fst (expire now c k elem hit) \<and>
            p' = (if snd (expire now c k elem hit) then AtLock else AtStats elem hit)) \<or>
         (\<exists>elem hit. p = AtStats elem hit \<and> a = Count \<and>
            c' = fst (update_stats c elem hit) \<and> p' = snd (update_stats c elem hit)) \<or>
         (\<exists>elem b. p = AtBudget elem b \<and> a = Evict \<and>
            c' = fst (evict_turn c elem b) \<and> p' = snd (evict_turn c elem b))"
proof (cases p)
  case AtLock
  then show ?thesis using assms by (cases a) (simp_all split: prod.splits)
next
  case (AtSelect elem hit)
  then show ?thesis using assms by (cases a) (simp_all split: prod.splits if_splits)
next
  case (AtStats elem hit)
  then show ?thesis using assms by (cases a) (simp_all add: prod_eq_iff)
next
  case (AtBudget elem b)
  then show ?thesis using assms by (cases a) (simp_all add: prod_eq_iff)
next
  case (Returned x)
  then show ?thesis using assms by (cases a) simp_all
next
  case Panicked
  then show ?thesis using assms by (cases a) simp_all
qed

lemma caller_step_cases:
  assumes "caller_step c k t p a = Some (c', p')"
  obtains
    (lock) "p = AtLock" "a = Lock" "c' = fst (enter c k t)"
      "p' = AtSelect (fst (snd (enter c k t))) (snd (snd (enter c k t)))"
  | (cancel) elem hit x where "p = AtSelect elem hit" "a = Cancel x" "c' = c"
      "p' = Returned (None, [], zeroTime, Some x)"
  | (wake) elem hit now where "p = AtSelect elem hit" "a = Wake now" "ready (heap c ! elem)"
      "c' = fst (expire now c k elem hit)"
      "p' = (if snd (expire now c k elem hit) then AtLock else AtStats elem hit)"
  | (count) elem hit where "p = AtStats elem hit" "a = Count"
      "c' = fst (update_stats c elem hit)" "p' = snd (update_stats c elem hit)"
  | (evict) elem b where "p = AtBudget elem b" "a = Evict"
      "c' = fst (evict_turn c elem b)" "p' = snd (evict_turn c elem b)"
  using caller_step_Some [OF assms] by blast

text \<open>What one step of a caller preserves and establishes.\<close>

lemma caller_step_ok:
  assumes wf: "wf_cache c" and ok: "caller_ok c k p"
    and st: "caller_step c k t p a = Some (c', p')"
  shows "wf_cache c'" "heap_grows c c'" "caller_ok c' k p'"
    "MinTTL c' = MinTTL c \<and> MaxTTL c' = MaxTTL c \<and> MaxBytes c' = MaxBytes c"
    "heap c' = heap c \<or> heap c' = heap c @ [newCacheItem k []]"
proof -
  have "wf_cache c' \<and> heap_grows c c' \<and> caller_ok c' k p' \<and>
    (MinTTL c' = MinTTL c \<and> MaxTTL c' = MaxTTL c \<and> MaxBytes c' = MaxBytes c) \<and>
    (heap c' = heap c \<or> heap c' = heap c @ [newCacheItem k []])"
    using st
  proof (cases rule: caller_step_cases)
    case lock
    show ?thesis
      unfolding lock
      using wf_enter [OF wf] heap_grows_enter enter_caller_ok [OF wf] enter_heap
      by simp
  next
    case (cancel elem hit x)
    then show ?thesis using wf by (auto intro: heap_grows_refl)
  next
    case (wake elem hit now)
    show ?thesis
      unfolding wake(4,5)
      using wf_expire [OF wf] heap_grows_expire ok wake(1,3) by simp
  next
    case (count elem hit)
    have "caller_ok (fst (update_stats c elem hit)) k (snd (update_stats c elem hit))"
      using ok count(1) by (auto simp: update_stats_def Let_def result_def)
    then show ?thesis
      unfolding count(3,4)
      using wf_update_stats [OF wf] by (simp add: heap_grows_refl)
  next
    case (evict elem b)
    have "caller_ok (fst (evict_turn c elem b)) k (snd (evict_turn c elem b))"
      using ok evict(1) wf_evict_turn [OF wf, of elem b]
      by (auto simp: evict_turn_def Let_def result_def split: if_splits)
    then show ?thesis
      unfolding evict(3,4)
      using wf_evict_turn [OF wf] by (simp add: heap_grows_refl)
  qed
  then show "wf_cache c'" "heap_grows c c'" "caller_ok c' k p'"
    "MinTTL c' = MinTTL c \<and> MaxTTL c' = MaxTTL c \<and> MaxBytes c' = MaxBytes c"
    "heap c' = heap c \<or> heap c' = heap c @ [newCacheItem k []]"
    by auto
qed


lemma entry_ok_config:
  "MinTTL c' = MinTTL c \<Longrightarrow> MaxTTL c' = MaxTTL c \<Longrightarrow> entry_ok r c' it = entry_ok r c it"
  by (simp add: entry_ok_def minTTL_def maxTTL_def)

lemma entry_ok_new: "entry_ok r c (newCacheItem k [])"
  by (simp add: entry_ok_def)

lemma ready_set_append:
  "\<not> ready x \<Longrightarrow>
   {e. e < length (h @ [x]) \<and> ready ((h @ [x]) ! e)} = {e. e < length h \<and> ready (h ! e)}"
  by (auto simp: nth_append less_Suc_eq)

lemma sys_ok_caller:
  assumes ok: "sys_ok r s" and n: "n < length (callers s)"
    and st: "caller_step (the_cache s) (ckey (callers s ! n)) (ctags (callers s ! n))
               (pc (callers s ! n)) a = Some (c', p')"
  shows "sys_ok r (s\<lparr>the_cache := c', callers := (callers s)[n := (callers s ! n)\<lparr>pc := p'\<rparr>]\<rparr>)"
proof -
  let ?c = "the_cache s"
  let ?cl = "callers s ! n"
  have wf: "wf_cache ?c" and cs: "\<forall>cl \<in> set (callers s). caller_ok ?c (ckey cl) (pc cl)"
    and es: "\<forall>it \<in> set (heap ?c). entry_ok r ?c it"
    and bc: "distinct (backend_calls s)"
      "set (backend_calls s) = {e. e < length (heap ?c) \<and> ready (heap ?c ! e)}"
    using ok by (simp_all add: sys_ok_def)
  have cl: "caller_ok ?c (ckey ?cl) (pc ?cl)" using cs n by simp
  note step = caller_step_ok [OF wf cl st]
  have 1: "\<forall>cl \<in> set ((callers s)[n := ?cl\<lparr>pc := p'\<rparr>]). caller_ok c' (ckey cl) (pc cl)"
  proof
    fix x assume "x \<in> set ((callers s)[n := ?cl\<lparr>pc := p'\<rparr>])"
    then have "x = ?cl\<lparr>pc := p'\<rparr> \<or> x \<in> set (callers s)"
      using set_update_subset_insert [of "callers s" n "?cl\<lparr>pc := p'\<rparr>"] by auto
    then show "caller_ok c' (ckey x) (pc x)"
    proof
      assume "x = ?cl\<lparr>pc := p'\<rparr>"
      then show ?thesis using step(3) by simp
    next
      assume "x \<in> set (callers s)"
      then show ?thesis using cs caller_ok_mono [OF _ step(2)] by blast
    qed
  qed
  have cfg: "entry_ok r c' it = entry_ok r ?c it" for it
    by (rule entry_ok_config) (use step(4) in simp_all)
  have 2: "\<forall>it \<in> set (heap c'). entry_ok r c' it"
    using step(5) es by (auto simp: cfg entry_ok_new)
  have 3: "{e. e < length (heap c') \<and> ready (heap c' ! e)} =
      {e. e < length (heap ?c) \<and> ready (heap ?c ! e)}"
  proof -
    from step(5) show ?thesis
    proof
      assume "heap c' = heap ?c"
      then show ?thesis by simp
    next
      assume h: "heap c' = heap ?c @ [newCacheItem (ckey ?cl) []]"
      show ?thesis unfolding h by (rule ready_set_append) simp
    qed
  qed
  show ?thesis
    using step(1) 1 2 3 bc by (simp add: sys_ok_def)
qed

lemma sys_ok_fetch:
  assumes ok: "sys_ok r s" and e: "e < length (heap (the_cache s))"
    and pending: "\<not> ready (heap (the_cache s) ! e)"
  shows "sys_ok r (s\<lparr>the_cache := fetch r p now (the_cache s) e,
                      backend_calls := backend_calls s @ [e]\<rparr>)"
proof -
  let ?c = "the_cache s"
  let ?c' = "fetch r p now ?c e"
  let ?x = "item_lookup r (minTTL ?c) (maxTTL ?c) p now (heap ?c ! e)"
  have wf: "wf_cache ?c" and cs: "\<forall>cl \<in> set (callers s). caller_ok ?c (ckey cl) (pc cl)"
    and es: "\<forall>it \<in> set (heap ?c). entry_ok r ?c it"
    and bc: "distinct (backend_calls s)"
      "set (backend_calls s) = {e. e < length (heap ?c) \<and> ready (heap ?c ! e)}"
    using ok by (simp_all add: sys_ok_def)
  have h: "heap ?c' = (heap ?c)[e := ?x]" by (simp add: fetch_def)
  have 1: "\<forall>cl \<in> set (callers s). caller_ok ?c' (ckey cl) (pc cl)"
    using cs caller_ok_mono [OF _ heap_grows_fetch [OF pending]] by blast
  have old: "heap ?c ! e = newCacheItem (key (heap ?c ! e)) []"
    using es e pending by (auto simp: entry_ok_def)
  have x: "entry_ok r ?c ?x"
    unfolding entry_ok_def using old by auto
  have cfg: "entry_ok r ?c' it = entry_ok r ?c it" for it
    by (rule entry_ok_config) simp_all
  have 2: "\<forall>it \<in> set (heap ?c'). entry_ok r ?c' it"
  proof
    fix it assume "it \<in> set (heap ?c')"
    then have "it = ?x \<or> it \<in> set (heap ?c)"
      unfolding h using set_update_subset_insert [of "heap ?c" e ?x] by auto
    then show "entry_ok r ?c' it" using x es by (auto simp: cfg)
  qed
  have 3: "{e'. e' < length (heap ?c') \<and> ready (heap ?c' ! e')} =
      insert e {e'. e' < length (heap ?c) \<and> ready (heap ?c ! e')}"
    unfolding h using e by (auto simp: nth_list_update)
  have 4: "e \<notin> set (backend_calls s)" using bc(2) pending by simp
  show ?thesis
    using wf_fetch [OF wf, of r p now e] 1 2 3 4 bc by (simp add: sys_ok_def)
qed

lemma sys_ok_step: "sys_ok r s \<Longrightarrow> sys_ok r (step r s ev)"
proof (cases ev)
  case (Caller n a)
  assume ok: "sys_ok r s"
  show ?thesis
  proof (cases "n < length (callers s)")
    case False
    then show ?thesis using ok Caller by simp
  next
    case True
    show ?thesis
    proof (cases "caller_step (the_cache s) (ckey (callers s ! n)) (ctags (callers s ! n))
               (pc (callers s ! n)) a")
      case None
      then show ?thesis using ok Caller True by simp
    next
      case (Some x)
      obtain c' p' where x: "x = (c', p')" by (cases x)
      show ?thesis
        using sys_ok_caller [OF ok True Some [unfolded x]] Caller True Some x by simp
    qed
  qed
next
  case (Fetch e p now)
  assume ok: "sys_ok r s"
  show ?thesis
    using sys_ok_fetch [OF ok, of e p now] ok Fetch by simp
qed

lemma sys_ok_run: "sys_ok r s \<Longrightarrow> sys_ok r (run r s evs)"
  by (induction evs arbitrary: s) (simp_all add: sys_ok_step)

lemma sys_ok_start: "sys_ok r (start (newCache a b m) reqs)"
  by (auto simp: sys_ok_def start_def wf_newCache) (simp_all add: newCache_def)

lemma item_lookup_bytes:
  "cacheItem.bytes (item_lookup r a b p now (newCacheItem k [])) = entry_bytes r c k"
  by (simp add: item_lookup_def entry_bytes_def Let_def newCacheItem_def split: prod.splits)

lemma maxBytes_config: "MaxBytes c = MaxBytes c0 \<Longrightarrow> maxBytes c = maxBytes c0"
  by (simp add: maxBytes_def)

lemma minTTL_config: "MinTTL c = MinTTL c0 \<Longrightarrow> minTTL c = minTTL c0"
  by (simp add: minTTL_def)

lemma maxTTL_config: "MaxTTL c = MaxTTL c0 \<Longrightarrow> maxTTL c = maxTTL c0"
  by (simp add: maxTTL_def)

lemma enter_empty:
  "items c = [] \<Longrightarrow> heap c = [] \<Longrightarrow>
   heap (fst (enter c k t)) = [newCacheItem k []] \<and>
   map_of (items (fst (enter c k t))) k = Some 0 \<and>
   Cache.bytes (fst (enter c k t)) = Cache.bytes c \<and>
   snd (enter c k t) = (0, False)"
  by (simp add: enter_def Let_def newCacheItem_def)

lemma enter_mapped:
  "map_of (items c) k = Some e \<Longrightarrow>
   heap (fst (enter c k t)) = heap c \<and> items (fst (enter c k t)) = items c \<and>
   Cache.bytes (fst (enter c k t)) = Cache.bytes c \<and>
   snd (enter c k t) = (e, True)"
  by (simp add: enter_def)


lemma sf_ok_update:
  assumes sf: "sf_ok c0 k T s" and n: "n < length (callers s)"
    and cfg: "MinTTL c' = MinTTL (the_cache s)" "MaxTTL c' = MaxTTL (the_cache s)"
      "MaxBytes c' = MaxBytes (the_cache s)"
    and wb: "within_budget c0 p'"
    and emp: "heap c' = [] \<Longrightarrow>
        heap (the_cache s) = [] \<and> items c' = [] \<and> Cache.bytes c' = 0 \<and> p' = AtLock"
    and nonemp: "heap c' \<noteq> [] \<Longrightarrow>
        length (heap c') = 1 \<and> map_of (items c') k = Some 0 \<and>
        (ready (heap c' ! 0) \<longrightarrow> T \<le> ttl (heap c' ! 0))"
    and m1: "misser p' \<Longrightarrow>
        misser (pc (callers s ! n)) \<or> (\<forall>cl \<in> set (callers s). \<not> misser (pc cl))"
    and m2a: "misser p' \<Longrightarrow> Cache.bytes c' = 0"
    and m2b: "Cache.bytes c' = Cache.bytes (the_cache s) \<or> misser (pc (callers s ! n))"
  shows "sf_ok c0 k T
           (s\<lparr>the_cache := c', callers := (callers s)[n := (callers s ! n)\<lparr>pc := p'\<rparr>]\<rparr>)"
proof -
  let ?cs = "callers s"
  let ?cs' = "?cs[n := (?cs ! n)\<lparr>pc := p'\<rparr>]"
  have old: "\<forall>cl \<in> set ?cs. ckey cl = k \<and> within_budget c0 (pc cl)"
    "heap (the_cache s) = [] \<longrightarrow> (\<forall>cl \<in> set ?cs. pc cl = AtLock)"
    "\<forall>i < length ?cs. \<forall>j < length ?cs.
        misser (pc (?cs ! i)) \<and> misser (pc (?cs ! j)) \<longrightarrow> i = j"
    "(\<exists>cl \<in> set ?cs. misser (pc cl)) \<longrightarrow> Cache.bytes (the_cache s) = 0"
    "MinTTL (the_cache s) = MinTTL c0" "MaxTTL (the_cache s) = MaxTTL c0"
    "MaxBytes (the_cache s) = MaxBytes c0"
    using sf by (simp_all add: sf_ok_def)
  have nth: "?cs' ! i = (if i = n then (?cs ! n)\<lparr>pc := p'\<rparr> else ?cs ! i)"
    if "i < length ?cs" for i
    using that by (simp add: nth_list_update)
  have mem: "cl = (?cs ! n)\<lparr>pc := p'\<rparr> \<or> cl \<in> set ?cs" if "cl \<in> set ?cs'" for cl
    using that set_update_subset_insert [of ?cs n "(?cs ! n)\<lparr>pc := p'\<rparr>"] by auto
  have 1: "\<forall>cl \<in> set ?cs'. ckey cl = k \<and> within_budget c0 (pc cl)"
  proof
    fix cl assume "cl \<in> set ?cs'"
    from mem [OF this] show "ckey cl = k \<and> within_budget c0 (pc cl)"
    proof
      assume "cl = (?cs ! n)\<lparr>pc := p'\<rparr>"
      then show ?thesis using old(1) wb n by simp
    next
      assume "cl \<in> set ?cs"
      then show ?thesis using old(1) by simp
    qed
  qed
  have 2: "\<forall>cl \<in> set ?cs'. pc cl = AtLock" if "heap c' = []"
  proof
    fix cl assume "cl \<in> set ?cs'"
    from mem [OF this] show "pc cl = AtLock"
    proof
      assume "cl = (?cs ! n)\<lparr>pc := p'\<rparr>"
      then show ?thesis using emp [OF that] by simp
    next
      assume "cl \<in> set ?cs"
      then show ?thesis using emp [OF that] old(2) by simp
    qed
  qed
  have 3: "i = j" if "i < length ?cs" "j < length ?cs"
    "misser (pc (?cs' ! i))" "misser (pc (?cs' ! j))" for i j
  proof (cases "misser p'")
    case False
    then have "i \<noteq> n" "j \<noteq> n" using that by (auto simp: nth)
    then show ?thesis using that old(3) by (simp add: nth)
  next
    case True
    from m1 [OF True] show ?thesis
    proof
      assume was: "misser (pc (?cs ! n))"
      have "misser (pc (?cs ! i))" using that(1,3) was by (cases "i = n") (simp_all add: nth)
      moreover have "misser (pc (?cs ! j))"
        using that(2,4) was by (cases "j = n") (simp_all add: nth)
      ultimately show ?thesis using old(3) that(1,2) by blast
    next
      assume none: "\<forall>cl \<in> set ?cs. \<not> misser (pc cl)"
      have "i = n" using that(1,3) none by (cases "i = n") (auto simp: nth)
      moreover have "j = n" using that(2,4) none by (cases "j = n") (auto simp: nth)
      ultimately show ?thesis by simp
    qed
  qed
  have 4: "Cache.bytes c' = 0" if cl_in: "cl \<in> set ?cs'" and cl_m: "misser (pc cl)" for cl
  proof -
    obtain i where i: "i < length ?cs" "?cs' ! i = cl"
      using cl_in by (auto simp: in_set_conv_nth)
    show ?thesis
    proof (cases "i = n")
      case True
      then have "cl = (?cs ! n)\<lparr>pc := p'\<rparr>" using i n by (simp add: nth)
      then show ?thesis using cl_m m2a by simp
    next
      case False
      then have cl: "?cs ! i = cl" using i by (simp add: nth)
      then have "cl \<in> set ?cs" using i(1) by auto
      then have z: "Cache.bytes (the_cache s) = 0" using old(4) cl_m by blast
      from m2b show ?thesis
      proof
        assume "Cache.bytes c' = Cache.bytes (the_cache s)"
        then show ?thesis using z by simp
      next
        assume was: "misser (pc (?cs ! n))"
        have "i = n" using old(3) was cl_m n i(1) cl by blast
        then show ?thesis using False by simp
      qed
    qed
  qed
  show ?thesis
    unfolding sf_ok_def
    using cfg old(5,6,7) 1 2 3 4 emp nonemp by (auto simp: nth)
qed


lemma sf_ok_caller:
  assumes sys: "sys_ok r s" and sf: "sf_ok c0 k T s" and n: "n < length (callers s)"
    and st: "caller_step (the_cache s) (ckey (callers s ! n)) (ctags (callers s ! n))
               (pc (callers s ! n)) a = Some (c', p')"
    and tm: "timely r c0 k T (Caller n a)"
    and budget: "\<not> maxBytes c0 <s entry_bytes r c0 k"
  shows "sf_ok c0 k T
           (s\<lparr>the_cache := c', callers := (callers s)[n := (callers s ! n)\<lparr>pc := p'\<rparr>]\<rparr>)"
proof -
  let ?c = "the_cache s"
  let ?cl = "callers s ! n"
  have wf: "wf_cache ?c" and cs: "\<forall>cl \<in> set (callers s). caller_ok ?c (ckey cl) (pc cl)"
    and es: "\<forall>it \<in> set (heap ?c). entry_ok r ?c it"
    using sys by (simp_all add: sys_ok_def)
  have cl: "caller_ok ?c (ckey ?cl) (pc ?cl)" using cs n by simp
  have key: "ckey ?cl = k" and wbn: "within_budget c0 (pc ?cl)"
    using sf n by (simp_all add: sf_ok_def)
  have old: "heap ?c = [] \<longrightarrow> items ?c = [] \<and> Cache.bytes ?c = 0 \<and>
        (\<forall>cl \<in> set (callers s). pc cl = AtLock)"
    "heap ?c \<noteq> [] \<longrightarrow> length (heap ?c) = 1 \<and> map_of (items ?c) k = Some 0 \<and>
        (ready (heap ?c ! 0) \<longrightarrow> T \<le> ttl (heap ?c ! 0))"
    "(\<exists>cl \<in> set (callers s). misser (pc cl)) \<longrightarrow> Cache.bytes ?c = 0"
    "MaxBytes ?c = MaxBytes c0"
    using sf by (simp_all add: sf_ok_def)
  have pcn: "pc ?cl = AtLock" if "heap ?c = []"
    using old(1) that n by simp
  have held: "e = 0 \<and> heap ?c \<noteq> []" if "e < length (heap ?c)" for e
    using that old(2) by (cases "heap ?c") auto
  have mb: "Cache.bytes ?c = 0" if "misser (pc ?cl)"
    using old(3) n that by (meson nth_mem)
  from st show ?thesis
  proof (cases rule: caller_step_cases)
    case lock
    show ?thesis
    proof (cases "heap ?c = []")
      case True
      then have it: "items ?c = []" and b0: "Cache.bytes ?c = 0"
        and al: "\<forall>cl \<in> set (callers s). pc cl = AtLock"
        using old(1) by simp_all
      note e = enter_empty [OF it True, of k "ctags ?cl"]
      show ?thesis
        unfolding lock(3,4) key
        by (rule sf_ok_update [OF sf n]) (use e b0 al in auto)
    next
      case False
      then have m: "map_of (items ?c) k = Some 0" using old(2) by simp
      note e = enter_mapped [OF m, of "ctags ?cl"]
      show ?thesis
        unfolding lock(3,4) key
        by (rule sf_ok_update [OF sf n]) (use e False old(2) in auto)
    qed
  next
    case (cancel elem hit x)
    have "heap ?c \<noteq> []" using pcn cancel(1) by auto
    then show ?thesis
      unfolding cancel(3,4)
      by (intro sf_ok_update [OF sf n]) (use old(2) in auto)
  next
    case (wake elem hit now)
    have e: "elem = 0" "heap ?c \<noteq> []" using cl wake(1) held by auto
    have "now \<le> T" using tm wake(2) by simp
    moreover have "T \<le> ttl (heap ?c ! 0)" using old(2) e wake(3) by simp
    ultimately have x: "expire now ?c (ckey ?cl) elem hit = (?c, False)"
      using e by (simp add: expire_fresh time_After_def)
    show ?thesis
      unfolding wake(4,5) x
      by (rule sf_ok_update [OF sf n]) (use e old(2) wake(1) mb in auto)
  next
    case (count elem hit)
    have e: "elem = 0" "heap ?c \<noteq> []" and rd: "ready (heap ?c ! 0)"
      using cl count(1) held by auto
    show ?thesis
    proof (cases hit)
      case True
      show ?thesis
        unfolding count(3,4)
        by (rule sf_ok_update [OF sf n])
           (use True e old(2) count(1) in \<open>auto simp: update_stats_def\<close>)
    next
      case False
      have "misser (pc ?cl)" using count(1) False by simp
      then have b0: "Cache.bytes ?c = 0" using old(3) n by (meson nth_mem)
      have "heap ?c ! 0 \<in> set (heap ?c)" using e by simp
      then have "entry_ok r ?c (heap ?c ! 0)" using es by blast
      then obtain p now where "heap ?c ! 0 =
          item_lookup r (minTTL ?c) (maxTTL ?c) p now (newCacheItem (key (heap ?c ! 0)) [])"
        using rd by (auto simp: entry_ok_def)
      moreover have "key (heap ?c ! 0) = k" using cl count(1) key e by simp
      ultimately have "heap ?c ! 0 =
          item_lookup r (minTTL ?c) (maxTTL ?c) p now (newCacheItem k [])"
        by simp
      then have "cacheItem.bytes (heap ?c ! 0) = entry_bytes r c0 k"
        using item_lookup_bytes [of r "minTTL ?c" "maxTTL ?c" p now k c0] by simp
      then have wb: "\<not> maxBytes c0 <s Cache.bytes ?c + cacheItem.bytes (heap ?c ! elem)"
        using budget b0 e by simp
      show ?thesis
        unfolding count(3,4)
        by (rule sf_ok_update [OF sf n])
           (use False e old(2) count(1) wb in \<open>auto simp: update_stats_def Let_def\<close>)
    qed
  next
    case (evict elem b)
    have e: "elem = 0" "heap ?c \<noteq> []" using cl evict(1) held by auto
    have "\<not> maxBytes ?c <s b"
      using wbn evict(1) maxBytes_config [OF old(4)] by simp
    then have x: "evict_turn ?c elem b = (?c, Returned (result ?c elem))"
      by (simp add: evict_turn_def)
    show ?thesis
      unfolding evict(3,4) x
      by (rule sf_ok_update [OF sf n]) (use e old(2) evict(1) in auto)
  qed
qed


lemma fetch_bytes [simp]: "Cache.bytes (fetch r p now c e) = Cache.bytes c"
  by (simp add: fetch_def)

lemma sf_ok_fetch:
  assumes sys: "sys_ok r s" and sf: "sf_ok c0 k T s"
    and e: "e < length (heap (the_cache s))" and pending: "\<not> ready (heap (the_cache s) ! e)"
    and tm: "timely r c0 k T (Fetch e p now)"
  shows "sf_ok c0 k T (s\<lparr>the_cache := fetch r p now (the_cache s) e,
                        backend_calls := backend_calls s @ [e]\<rparr>)"
proof -
  let ?c = "the_cache s"
  have wf: "wf_cache ?c" and es: "\<forall>it \<in> set (heap ?c). entry_ok r ?c it"
    using sys by (simp_all add: sys_ok_def)
  have ne: "heap ?c \<noteq> []" using e by auto
  then have old: "length (heap ?c) = 1" "map_of (items ?c) k = Some 0"
    and cfg: "MinTTL ?c = MinTTL c0" "MaxTTL ?c = MaxTTL c0"
    using sf by (simp_all add: sf_ok_def)
  have e0: "e = 0" using e old(1) by simp
  have "(k, 0) \<in> set (items ?c)" using old(2) by (rule map_of_SomeD)
  then have key: "key (heap ?c ! 0) = k" using wf_cacheD(5) [OF wf] by simp
  have "heap ?c ! 0 \<in> set (heap ?c)" using ne by simp
  then have "entry_ok r ?c (heap ?c ! 0)" using es by blast
  then have new: "heap ?c ! 0 = newCacheItem k []"
    using pending e0 key by (simp add: entry_ok_def)
  have h: "heap (fetch r p now ?c e) =
      [item_lookup r (minTTL c0) (maxTTL c0) p now (newCacheItem k [])]"
    using old(1) e0 new minTTL_config [OF cfg(1)] maxTTL_config [OF cfg(2)]
    by (cases "heap ?c") (simp_all add: fetch_def)
  have t: "T \<le> ttl (item_lookup r (minTTL c0) (maxTTL c0) p now (newCacheItem k []))"
    using tm by simp
  have i: "items (fetch r p now ?c e) = items ?c" by (simp add: fetch_def)
  show ?thesis
    using sf t old(2) ne unfolding sf_ok_def by (simp add: h i)
qed

lemma sf_ok_step:
  assumes "sys_ok r s" and "sf_ok c0 k T s" and "timely r c0 k T ev"
    and "\<not> maxBytes c0 <s entry_bytes r c0 k"
  shows "sf_ok c0 k T (step r s ev)"
proof (cases ev)
  case (Caller n a)
  show ?thesis
  proof (cases "n < length (callers s)")
    case False
    then show ?thesis using assms(2) Caller by simp
  next
    case True
    show ?thesis
    proof (cases "caller_step (the_cache s) (ckey (callers s ! n)) (ctags (callers s ! n))
               (pc (callers s ! n)) a")
      case None
      then show ?thesis using assms(2) Caller True by simp
    next
      case (Some x)
      obtain c' p' where x: "x = (c', p')" by (cases x)
      show ?thesis
        using sf_ok_caller [OF assms(1,2) True Some [unfolded x] assms(3) [unfolded Caller]
            assms(4)] Caller True Some x
        by simp
    qed
  qed
next
  case (Fetch e p now)
  show ?thesis
    using sf_ok_fetch [OF assms(1,2), of e p now] assms(2,3) Fetch by simp
qed

lemma sf_ok_run:
  assumes "\<not> maxBytes c0 <s entry_bytes r c0 k"
  shows "sys_ok r s \<Longrightarrow> sf_ok c0 k T s \<Longrightarrow> \<forall>ev \<in> set evs. timely r c0 k T ev \<Longrightarrow>
         sf_ok c0 k T (run r s evs)"
proof (induction evs arbitrary: s)
  case Nil
  then show ?case by simp
next
  case (Cons ev evs)
  have "sf_ok c0 k T (step r s ev)"
    by (rule sf_ok_step [OF Cons.prems(1,2) _ assms]) (use Cons.prems(3) in simp)
  then show ?case
    using Cons.IH [OF sys_ok_step [OF Cons.prems(1)]] Cons.prems(3) by simp
qed

lemma sf_ok_start:
  assumes "\<forall>(nm, tgs) \<in> set reqs. makeCacheKey nm (sortedStrings tgs) = k"
  shows "sf_ok (newCache a b m) k T (start (newCache a b m) reqs)"
proof -
  have "pc cl = AtLock \<and> ckey cl = k"
    if "cl \<in> set (callers (start (newCache a b m) reqs))" for cl
    using that assms by (auto simp: start_def)
  then have "\<forall>cl \<in> set (callers (start (newCache a b m) reqs)).
      pc cl = AtLock \<and> ckey cl = k \<and> within_budget (newCache a b m) (pc cl) \<and> \<not> misser (pc cl)"
    by simp
  moreover have "the_cache (start (newCache a b m) reqs) = newCache a b m"
    by (simp add: start_def)
  ultimately show ?thesis
    unfolding sf_ok_def by (auto simp: newCache_def)
qed

subsection \<open>The statistics under interleaving\<close>




text \<open>
  Claim C2.  Let any number of callers run \<open>Cache.lookup\<close> on an empty cache under any
  schedule.  The backend has been called once for every entry that is ready and for no
  other, never twice for an entry: once per miss, since it is a miss that allocates an
  entry and launches its fetch.  A caller that has returned an entry has returned the
  address list, expiry and error of an entry of its own key, as the one fetch of that
  entry computed them from the backend's answer.  If moreover all callers ask for the same
  key, no caller reads the clock past an expiry and the budget holds the entry, then there
  is at most one entry and at most one call of the backend, whatever the number of
  callers, and every caller that returns an entry returns that one.
\<close>

theorem single_flight:
  "(let s = run r (start (newCache a b m) reqs) evs;
        c = the_cache s
    in distinct (backend_calls s) \<and>
       set (backend_calls s) = {e. e < length (heap c) \<and> ready (heap c ! e)} \<and>
       (\<forall>cl \<in> set (callers s). \<forall>e as d er.
          pc cl = Returned (Some e, as, d, er) \<longrightarrow>
            e \<in> set (backend_calls s) \<and> key (heap c ! e) = ckey cl \<and>
            as = addrs (heap c ! e) \<and> d = ttl (heap c ! e) \<and> er = err (heap c ! e) \<and>
            (\<exists>p now. heap c ! e =
               item_lookup r (minTTL c) (maxTTL c) p now (newCacheItem (ckey cl) []))) \<and>
       (\<forall>cl \<in> set (callers s). pc cl \<noteq> Panicked) \<and>
       ((\<forall>(nm, tgs) \<in> set reqs. makeCacheKey nm (sortedStrings tgs) = k) \<and>
        (\<forall>ev \<in> set evs. timely r (newCache a b m) k T ev) \<and>
        \<not> maxBytes (newCache a b m) <s entry_bytes r (newCache a b m) k \<longrightarrow>
          length (heap c) \<le> 1 \<and> length (backend_calls s) \<le> 1 \<and>
          (\<forall>cl \<in> set (callers s). \<forall>e as d er.
             pc cl = Returned (Some e, as, d, er) \<longrightarrow> e = 0 \<and> backend_calls s = [0])))"
proof -
  let ?s = "run r (start (newCache a b m) reqs) evs"
  let ?c = "the_cache ?s"
  have ok: "sys_ok r ?s" by (rule sys_ok_run [OF sys_ok_start])
  then have wf: "wf_cache ?c"
    and cs: "\<forall>cl \<in> set (callers ?s). caller_ok ?c (ckey cl) (pc cl)"
    and es: "\<forall>it \<in> set (heap ?c). entry_ok r ?c it"
    and bc: "distinct (backend_calls ?s)"
      "set (backend_calls ?s) = {e. e < length (heap ?c) \<and> ready (heap ?c ! e)}"
    by (simp_all add: sys_ok_def)
  have ret: "e \<in> set (backend_calls ?s) \<and> key (heap ?c ! e) = ckey cl \<and>
            as = addrs (heap ?c ! e) \<and> d = ttl (heap ?c ! e) \<and> er = err (heap ?c ! e) \<and>
            (\<exists>p now. heap ?c ! e =
               item_lookup r (minTTL ?c) (maxTTL ?c) p now (newCacheItem (ckey cl) []))"
    if "cl \<in> set (callers ?s)" "pc cl = Returned (Some e, as, d, er)" for cl e as d er
  proof -
    have c: "e < length (heap ?c)" "key (heap ?c ! e) = ckey cl" "ready (heap ?c ! e)"
      "as = addrs (heap ?c ! e)" "d = ttl (heap ?c ! e)" "er = err (heap ?c ! e)"
      using cs that by fastforce+
    have "entry_ok r ?c (heap ?c ! e)" using es c(1) by simp
    then have "\<exists>p now. heap ?c ! e =
               item_lookup r (minTTL ?c) (maxTTL ?c) p now (newCacheItem (ckey cl) [])"
      using c(2,3) by (simp add: entry_ok_def)
    then show ?thesis using c bc(2) by simp
  qed
  have np: "pc cl \<noteq> Panicked" if "cl \<in> set (callers ?s)" for cl
    using cs that by fastforce
  have race: "length (heap ?c) \<le> 1 \<and> length (backend_calls ?s) \<le> 1 \<and>
          (\<forall>cl \<in> set (callers ?s). \<forall>e as d er.
             pc cl = Returned (Some e, as, d, er) \<longrightarrow> e = 0 \<and> backend_calls ?s = [0])"
    if same: "\<forall>(nm, tgs) \<in> set reqs. makeCacheKey nm (sortedStrings tgs) = k"
      and tm: "\<forall>ev \<in> set evs. timely r (newCache a b m) k T ev"
      and budget: "\<not> maxBytes (newCache a b m) <s entry_bytes r (newCache a b m) k"
  proof -
    have "sf_ok (newCache a b m) k T ?s"
      by (rule sf_ok_run [OF budget sys_ok_start sf_ok_start [OF same] tm])
    then have len: "length (heap ?c) \<le> 1"
      by (cases "heap ?c = []") (simp_all add: sf_ok_def)
    have sub: "set (backend_calls ?s) \<subseteq> {0}"
    proof
      fix e assume "e \<in> set (backend_calls ?s)"
      then have "e < length (heap ?c)" unfolding bc(2) by simp
      then show "e \<in> {0}" using len by simp
    qed
    have "card (set (backend_calls ?s)) \<le> card {0::nat}"
      by (rule card_mono [OF _ sub]) simp
    then have l1: "length (backend_calls ?s) \<le> 1"
      using distinct_card [OF bc(1)] by simp
    have "e = 0 \<and> backend_calls ?s = [0]"
      if "cl \<in> set (callers ?s)" "pc cl = Returned (Some e, as, d, er)" for cl e as d er
    proof -
      have m: "e \<in> set (backend_calls ?s)" using ret [OF that] by simp
      then have e0: "e = 0" using sub by auto
      have "backend_calls ?s = [0]"
        using m e0 l1 by (cases "backend_calls ?s") auto
      then show ?thesis using e0 by simp
    qed
    then show ?thesis using len l1 by blast
  qed
  show ?thesis
    unfolding Let_def
  proof (intro conjI)
    show "distinct (backend_calls ?s)" by (rule bc(1))
    show "set (backend_calls ?s) = {e. e < length (heap ?c) \<and> ready (heap ?c ! e)}"
      by (rule bc(2))
    show "\<forall>cl \<in> set (callers ?s). \<forall>e as d er.
          pc cl = Returned (Some e, as, d, er) \<longrightarrow>
            e \<in> set (backend_calls ?s) \<and> key (heap ?c ! e) = ckey cl \<and>
            as = addrs (heap ?c ! e) \<and> d = ttl (heap ?c ! e) \<and> er = err (heap ?c ! e) \<and>
            (\<exists>p now. heap ?c ! e =
               item_lookup r (minTTL ?c) (maxTTL ?c) p now (newCacheItem (ckey cl) []))"
      using ret by (intro ballI allI impI)
    show "\<forall>cl \<in> set (callers ?s). pc cl \<noteq> Panicked"
      using np by (intro ballI)
    show "(\<forall>(nm, tgs) \<in> set reqs. makeCacheKey nm (sortedStrings tgs) = k) \<and>
        (\<forall>ev \<in> set evs. timely r (newCache a b m) k T ev) \<and>
        \<not> maxBytes (newCache a b m) <s entry_bytes r (newCache a b m) k \<longrightarrow>
          length (heap ?c) \<le> 1 \<and> length (backend_calls ?s) \<le> 1 \<and>
          (\<forall>cl \<in> set (callers ?s). \<forall>e as d er.
             pc cl = Returned (Some e, as, d, er) \<longrightarrow> e = 0 \<and> backend_calls ?s = [0])"
    proof (intro impI)
      assume h: "(\<forall>(nm, tgs) \<in> set reqs. makeCacheKey nm (sortedStrings tgs) = k) \<and>
        (\<forall>ev \<in> set evs. timely r (newCache a b m) k T ev) \<and>
        \<not> maxBytes (newCache a b m) <s entry_bytes r (newCache a b m) k"
      show "length (heap ?c) \<le> 1 \<and> length (backend_calls ?s) \<le> 1 \<and>
          (\<forall>cl \<in> set (callers ?s). \<forall>e as d er.
             pc cl = Returned (Some e, as, d, er) \<longrightarrow> e = 0 \<and> backend_calls ?s = [0])"
        by (rule race) (use h in simp_all)
    qed
  qed
qed


theorem single_flight_witness:
  "backend_calls race = [0] \<and>
   map pc (callers race) =
     [Returned (Some 0, [''c'', ''b'', ''a''], 1000000000, None),
      Returned (Some 0, [''c'', ''b'', ''a''], 1000000000, None),
      Returned (Some 0, [''c'', ''b'', ''a''], 1000000000, None)] \<and>
   length (heap (the_cache race)) \<le> 1 \<and> length (backend_calls race) \<le> 1"
proof -
  let ?k = "makeCacheKey ''svc'' []"
  have ev: "backend_calls race = [0]"
    "map pc (callers race) =
     [Returned (Some 0, [''c'', ''b'', ''a''], 1000000000, None),
      Returned (Some 0, [''c'', ''b'', ''a''], 1000000000, None),
      Returned (Some 0, [''c'', ''b'', ''a''], 1000000000, None)]"
    by code_simp+
  have same: "\<forall>(nm, tgs) \<in> set [(''svc'', []), (''svc'', []), (''svc'', [])].
      makeCacheKey nm (sortedStrings tgs) = ?k"
    by (simp add: sortedStrings_sort)
  have tm: "\<forall>ev \<in> set race_schedule. timely svc_registry (newCache 0 0 0) ?k 1000000000 ev"
    by code_simp
  have budget: "\<not> maxBytes (newCache 0 0 0) <s entry_bytes svc_registry (newCache 0 0 0) ?k"
    by code_simp
  from single_flight [of svc_registry 0 0 0 "[(''svc'', []), (''svc'', []), (''svc'', [])]"
      race_schedule ?k 1000000000]
  have "length (heap (the_cache race)) \<le> 1 \<and> length (backend_calls race) \<le> 1"
    unfolding Let_def race_def [symmetric] using same tm budget by blast
  then show ?thesis using ev by simp
qed

lemma remdups_snoc: "remdups (xs @ [k]) = filter (\<lambda>k'. k' \<noteq> k) (remdups xs) @ [k]"
  by (induction xs) auto

lemma by_recency_snoc: "by_recency (log @ [k]) = k # filter (\<lambda>k'. k' \<noteq> k) (by_recency log)"
  by (simp add: by_recency_def remdups_snoc rev_filter)

lemma map_remove1_inj:
  "distinct q \<Longrightarrow> inj_on f (set q) \<Longrightarrow> e \<in> set q \<Longrightarrow>
   map f (remove1 e q) = filter (\<lambda>k. k \<noteq> f e) (map f q)"
proof (induction q)
  case Nil
  then show ?case by simp
next
  case (Cons a q)
  show ?case
  proof (cases "a = e")
    case True
    have "\<forall>x \<in> set q. f x \<noteq> f e"
      using Cons.prems True by (auto simp: inj_on_def)
    then have "filter (\<lambda>k. k \<noteq> f e) (map f q) = map f q"
      by (simp add: filter_id_conv)
    then show ?thesis using True by simp
  next
    case False
    then have "f a \<noteq> f e" using Cons.prems by (auto simp: inj_on_def)
    then show ?thesis using Cons False by simp
  qed
qed

lemma wf_key_inj:
  assumes wf: "wf_cache c"
  shows "inj_on (\<lambda>e. key (heap c ! e)) (set (queue c))"
proof (rule inj_onI)
  fix x y assume x: "x \<in> set (queue c)" and y: "y \<in> set (queue c)"
    and eq: "key (heap c ! x) = key (heap c ! y)"
  note d = wf_cacheD [OF wf]
  from x d(3) obtain kx where kx: "(kx, x) \<in> set (items c)" by force
  from y d(3) obtain ky where ky: "(ky, y) \<in> set (items c)" by force
  have "kx = ky" using d(5) [OF kx] d(5) [OF ky] eq by simp
  then show "x = y" using kx ky d(1) by (metis eq_key_imp_eq_value)
qed

lemma lru_remove:
  assumes wf: "wf_cache c" and mem: "(k, e) \<in> set (items c)"
    and q: "queue c' = Remove e (queue c)" and i: "items c' = AList.delete k (items c)"
    and h: "heap c' = heap c" and l: "lru_order log c"
  shows "lru_order log c'"
proof -
  note d = wf_cacheD [OF wf]
  have eq: "e \<in> set (queue c)" using d(3) mem by force
  have ke: "key (heap c ! e) = k" using d(5) [OF mem] .
  have "queue_keys c' = filter (\<lambda>k'. k' \<noteq> k) (queue_keys c)"
    using map_remove1_inj [OF d(2) wf_key_inj [OF wf] eq] ke
    by (simp add: queue_keys_def q h Remove_def)
  moreover have "resident c' k' \<longleftrightarrow> k' \<noteq> k \<and> resident c k'" for k'
    by (auto simp: resident_def i delete_conv')
  ultimately show ?thesis using l by (simp add: lru_order_def)
      (metis (mono_tags, lifting) filter_cong)
qed


lemma lru_enter:
  assumes wf: "wf_cache c" and l: "lru_order log c"
  shows "lru_order (log @ [k]) (fst (enter c k t))"
proof (cases "map_of (items c) k")
  case None
  note d = wf_cacheD [OF wf]
  have fresh: "k \<notin> fst ` set (items c)" using None by (simp add: map_of_eq_None_iff)
  have lt: "\<forall>e \<in> set (queue c). e < length (heap c)"
    using d(3) d(4) by force
  have qk: "queue_keys (fst (enter c k t)) = k # queue_keys c"
    using lt by (simp add: enter_miss [OF None] queue_keys_def PushFront_def nth_append)
  have res: "resident (fst (enter c k t)) k' \<longleftrightarrow> k' = k \<or> resident c k'" for k'
    by (simp add: enter_miss [OF None] resident_def update_conv')
  have nk: "\<not> resident c k" using None by (simp add: resident_def)
  have "filter (\<lambda>k'. k' = k \<or> resident c k') (filter (\<lambda>k'. k' \<noteq> k) (by_recency log))
      = filter (resident c) (by_recency log)"
    unfolding filter_filter using nk by (intro filter_cong) auto
  then show ?thesis
    using l by (simp add: lru_order_def by_recency_snoc qk res)
next
  case (Some e)
  note d = wf_cacheD [OF wf]
  have mem: "(k, e) \<in> set (items c)" using Some by (rule map_of_SomeD)
  have eq: "e \<in> set (queue c)" using d(3) mem by force
  have ke: "key (heap c ! e) = k" using d(5) [OF mem] .
  have qk: "queue_keys (fst (enter c k t)) = k # filter (\<lambda>k'. k' \<noteq> k) (queue_keys c)"
    using map_remove1_inj [OF d(2) wf_key_inj [OF wf] eq] ke eq
    by (simp add: enter_hit [OF Some] queue_keys_def MoveToFront_def)
  have res: "resident (fst (enter c k t)) = resident c"
    by (simp add: enter_hit [OF Some] resident_def fun_eq_iff)
  have rk: "resident c k" using Some by (simp add: resident_def)
  have "filter (resident c) (filter (\<lambda>k'. k' \<noteq> k) (by_recency log))
      = filter (\<lambda>k'. k' \<noteq> k) (filter (resident c) (by_recency log))"
    unfolding filter_filter by (intro filter_cong) auto
  then show ?thesis
    using l rk by (simp add: lru_order_def by_recency_snoc qk res)
qed

lemma lru_stats_irrelevant:
  assumes "lru_order log c" "items c' = items c" "queue c' = queue c"
    "\<And>j. key (heap c' ! j) = key (heap c ! j)"
  shows "lru_order log c'"
proof -
  have "resident c' = resident c" using assms(2) by (simp add: resident_def fun_eq_iff)
  moreover have "queue_keys c' = queue_keys c" using assms(3,4) by (simp add: queue_keys_def)
  ultimately show ?thesis using assms(1) by (simp add: lru_order_def)
qed

lemma fetch_key: "key (heap (fetch r p now c e) ! j) = key (heap c ! j)"
  by (cases "j = e"; cases "e < length (heap c)") (simp_all add: fetch_def list_update_beyond)

lemma lru_fetch:
  assumes "lru_order log c"
  shows "lru_order log (fetch r p now c e)"
proof (rule lru_stats_irrelevant [OF assms])
  show "items (fetch r p now c e) = items c" by (simp add: fetch_def)
  show "queue (fetch r p now c e) = queue c" by (simp add: fetch_def)
  show "key (heap (fetch r p now c e) ! j) = key (heap c ! j)" for j by (rule fetch_key)
qed

lemma lru_expire:
  assumes wf: "wf_cache c" and l: "lru_order log c"
  shows "lru_order log (fst (expire now c k e hit))"
proof (cases "time_After now (ttl (heap c ! e)) \<and> map_of (items c) k = Some e")
  case True
  then have mem: "(k, e) \<in> set (items c)" by (auto dest: map_of_SomeD)
  show ?thesis
    using True by (auto simp: expire_def Let_def intro!: lru_remove [OF wf mem _ _ _ l])
next
  case False
  then show ?thesis using l by (auto simp: expire_def Let_def)
qed

lemma lru_update_stats:
  assumes "lru_order log c"
  shows "lru_order log (fst (update_stats c e hit))"
  by (rule lru_stats_irrelevant [OF assms]) (simp_all add: update_stats_def Let_def)

lemma lru_evict_turn:
  assumes wf: "wf_cache c" and l: "lru_order log c"
  shows "lru_order log (fst (evict_turn c e b))"
proof (cases "maxBytes c <s b \<and> items c \<noteq> []")
  case False
  then show ?thesis using l by (auto simp: evict_turn_def)
next
  case True
  then have ne: "queue c \<noteq> []" using wf_queue_empty_iff [OF wf] by simp
  show ?thesis
    using True ne
    by (auto simp: evict_turn_def Let_def intro!: lru_remove [OF wf wf_last_mem [OF wf ne] _ _ _ l])
qed

lemma lru_caller_step:
  assumes wf: "wf_cache c" and l: "lru_order log c"
    and st: "caller_step c k t p a = Some (c', p')"
  shows "lru_order (log @ (if p = AtLock \<and> a = Lock then [k] else [])) c'"
  using st
proof (cases rule: caller_step_cases)
  case lock
  then show ?thesis using lru_enter [OF wf l] by simp
next
  case (cancel elem hit x)
  then show ?thesis using l by simp
next
  case (wake elem hit now)
  then show ?thesis using lru_expire [OF wf l] by simp
next
  case (count elem hit)
  then show ?thesis using lru_update_stats [OF l] by simp
next
  case (evict elem b)
  then show ?thesis using lru_evict_turn [OF wf l] by simp
qed


lemma touched_Caller:
  "touched s (Caller n a) =
     (if n < length (callers s) \<and> pc (callers s ! n) = AtLock \<and> a = Lock
      then [ckey (callers s ! n)] else [])"
  by (cases a) simp_all

lemma lru_step:
  assumes ok: "sys_ok r s" and l: "lru_order log (the_cache s)"
  shows "lru_order (log @ touched s ev) (the_cache (step r s ev))"
proof (cases ev)
  case (Caller n a)
  have wf: "wf_cache (the_cache s)" using ok by (simp add: sys_ok_def)
  show ?thesis
  proof (cases "n < length (callers s)")
    case False
    then show ?thesis using l Caller by (simp add: touched_Caller)
  next
    case True
    show ?thesis
    proof (cases "caller_step (the_cache s) (ckey (callers s ! n)) (ctags (callers s ! n))
               (pc (callers s ! n)) a")
      case None
      then have "\<not> (pc (callers s ! n) = AtLock \<and> a = Lock)"
        by (auto split: prod.splits)
      then show ?thesis using l Caller True None by (auto simp: touched_Caller)
    next
      case (Some x)
      obtain c' p' where x: "x = (c', p')" by (cases x)
      show ?thesis
        using lru_caller_step [OF wf l Some [unfolded x]] Caller True Some x
        by (simp add: touched_Caller)
    qed
  qed
next
  case (Fetch e p now)
  then show ?thesis using lru_fetch [OF l] l by simp
qed

lemma lru_run:
  "sys_ok r s \<Longrightarrow> lru_order log (the_cache s) \<Longrightarrow>
   lru_order (log @ touches r s evs) (the_cache (run r s evs))"
proof (induction evs arbitrary: s log)
  case Nil
  then show ?case by simp
next
  case (Cons ev evs)
  from Cons.IH [OF sys_ok_step [OF Cons.prems(1)] lru_step [OF Cons.prems]]
  show ?case by simp
qed

lemma lru_start: "lru_order [] (the_cache (start (newCache a b m) reqs))"
  by (simp add: lru_order_def start_def newCache_def queue_keys_def by_recency_def)

lemma wf_resident_keys:
  assumes wf: "wf_cache c"
  shows "resident c k \<longleftrightarrow> k \<in> set (queue_keys c)"
proof -
  note d = wf_cacheD [OF wf]
  have "k \<in> set (queue_keys c) \<longleftrightarrow> (\<exists>e \<in> snd ` set (items c). key (heap c ! e) = k)"
    using d(3) by (auto simp: queue_keys_def)
  also have "\<dots> \<longleftrightarrow> k \<in> fst ` set (items c)"
    using d(5) by force
  finally show ?thesis by (simp add: resident_def map_of_eq_None_iff)
qed


lemma remove_back_config [simp]:
  "MaxBytes (remove_back c) = MaxBytes c"
  "maxBytes (remove_back c) = maxBytes c"
  by (simp_all add: remove_back_def Let_def maxBytes_def)

lemma step_Evict:
  assumes "i < length (callers s)" and "pc (callers s ! i) = AtBudget e b"
  shows "the_cache (step r s (Caller i Evict)) = fst (evict_turn (the_cache s) e b)"
    and "length (callers (step r s (Caller i Evict))) = length (callers s)"
    and "pc (callers (step r s (Caller i Evict)) ! i) = snd (evict_turn (the_cache s) e b)"
  using assms by (simp_all split: prod.splits)

lemma evict_steps:
  assumes "wf_cache (the_cache s)" and "i < length (callers s)"
    and "pc (callers s ! i) = AtBudget e (Cache.bytes (the_cache s))"
    and "\<forall>m < n. maxBytes (the_cache s) <s Cache.bytes ((remove_back ^^ m) (the_cache s)) \<and>
                 queue ((remove_back ^^ m) (the_cache s)) \<noteq> []"
    and "Cache.bytes ((remove_back ^^ n) (the_cache s)) \<le>s maxBytes (the_cache s) \<or>
         items ((remove_back ^^ n) (the_cache s)) = []"
  shows "the_cache (run r s (replicate (Suc n) (Caller i Evict))) = (remove_back ^^ n) (the_cache s) \<and>
         pc (callers (run r s (replicate (Suc n) (Caller i Evict))) ! i) =
           Returned (result ((remove_back ^^ n) (the_cache s)) e)"
  using assms
proof (induction n arbitrary: s)
  case 0
  let ?c = "the_cache s"
  have "evict_turn ?c e (Cache.bytes ?c) = (?c, Returned (result ?c e))"
    using 0(5) by (auto simp: evict_turn_def word_sless_alt word_sle_eq)
  then show ?case using step_Evict [OF 0(2,3), of r] by simp
next
  case (Suc n)
  let ?c = "the_cache s"
  let ?s1 = "step r s (Caller i Evict)"
  have ex: "maxBytes ?c <s Cache.bytes ?c" and ne: "queue ?c \<noteq> []"
    using Suc.prems(4) by auto
  have ni: "items ?c \<noteq> []" using wf_queue_empty_iff [OF Suc.prems(1)] ne by simp
  have et: "evict_turn ?c e (Cache.bytes ?c) =
      (remove_back ?c, AtBudget e (Cache.bytes (remove_back ?c)))"
    using ex ni ne wf_loop_body [OF Suc.prems(1) ne]
    by (simp add: evict_turn_def Let_def)
  note st = step_Evict [OF Suc.prems(2,3), of r, unfolded et fst_conv snd_conv]
  have pow: "(remove_back ^^ m) (remove_back ?c) = (remove_back ^^ Suc m) ?c" for m
    by (simp add: funpow_swap1)
  have 1: "wf_cache (the_cache ?s1)"
    unfolding st(1) by (rule wf_remove_back [OF Suc.prems(1) ne])
  have 2: "i < length (callers ?s1)" using st(2) Suc.prems(2) by simp
  have 3: "pc (callers ?s1 ! i) = AtBudget e (Cache.bytes (the_cache ?s1))"
    using st(1,3) by simp
  have 4: "\<forall>m < n. maxBytes (the_cache ?s1) <s Cache.bytes ((remove_back ^^ m) (the_cache ?s1)) \<and>
                 queue ((remove_back ^^ m) (the_cache ?s1)) \<noteq> []"
    unfolding st(1) pow using Suc.prems(4) by auto
  have 5: "Cache.bytes ((remove_back ^^ n) (the_cache ?s1)) \<le>s maxBytes (the_cache ?s1) \<or>
         items ((remove_back ^^ n) (the_cache ?s1)) = []"
    unfolding st(1) pow using Suc.prems(5) by simp
  from Suc.IH [OF 1 2 3 4 5]
  show ?case unfolding st(1) pow by simp
qed


lemma step_Count:
  assumes "i < length (callers s)" and "pc (callers s ! i) = AtStats e hit"
  shows "the_cache (step r s (Caller i Count)) = fst (update_stats (the_cache s) e hit)"
    and "length (callers (step r s (Caller i Count))) = length (callers s)"
    and "pc (callers (step r s (Caller i Count)) ! i) = snd (update_stats (the_cache s) e hit)"
  using assms by (simp_all split: prod.splits)

lemma remove_back_pow_keys:
  "queue_keys ((remove_back ^^ n) c) = take (length (queue_keys c) - n) (queue_keys c)"
  using remove_back_pow [of n c] by (simp add: queue_keys_def take_map)

text \<open>
  Claim C7.  Let any number of callers run \<open>Cache.lookup\<close> on an empty cache under any
  schedule.  In the state reached, the recency queue holds the resident keys in the order
  of their last touch, the most recently touched at the front and the least recently
  touched at the back.  From that state, the statistics update and the budget loop of a
  miss give the result of removing the entry at the back of the queue \<open>n\<close> times, once
  size, misses and bytes have been incremented, for the least \<open>n\<close> after which the byte
  counter is within the budget or the cache is empty: before each of the \<open>n\<close> removals
  the counter exceeds the budget and the queue has an entry.  The keys removed are the
  \<open>n\<close> least recently touched, whatever their expiry; the others stay, in their order;
  size has gone down and evictions up by \<open>n\<close>.  The budget is \<open>MaxBytes\<close> if positive
  and 1 MiB otherwise.  A caller that stands before the statistics update of a miss
  reaches that result and returns by its next steps, if no other caller steps in between.
\<close>

theorem budget_eviction:
  "(let s = run r (start (newCache a b m) reqs) evs; c = the_cache s;
        lru = filter (resident c) (by_recency (touches r (start (newCache a b m) reqs) evs))
    in queue_keys c = lru \<and>
       (\<exists>n \<le> length lru.
          (let c0 = c\<lparr>size' := size' c + 1, misses := misses c + 1,
                       bytes := Cache.bytes c + cacheItem.bytes (heap c ! e)\<rparr>;
               c' = (remove_back ^^ n) c0
           in account c e False = Some c' \<and>
              (Cache.bytes c' \<le>s maxBytes c \<or> items c' = [] \<and> queue c' = []) \<and>
              (\<forall>j < n. maxBytes c <s Cache.bytes ((remove_back ^^ j) c0) \<and>
                       queue ((remove_back ^^ j) c0) \<noteq> []) \<and>
              queue c' = take (length (queue c) - n) (queue c) \<and>
              queue_keys c' = take (length lru - n) lru \<and>
              (\<forall>k. resident c' k \<longleftrightarrow> k \<in> set (take (length lru - n) lru)) \<and>
              size' c' = size' c + 1 - of_nat n \<and>
              evictions c' = evictions c + of_nat n \<and>
              maxBytes c = (if 0 <s MaxBytes c then MaxBytes c else 1024 * 1024) \<and>
              (\<forall>i < length (callers s). pc (callers s ! i) = AtStats e False \<longrightarrow>
                 (let s' = run r s (Caller i Count # replicate (Suc n) (Caller i Evict))
                  in the_cache s' = c' \<and> pc (callers s' ! i) = Returned (result c' e))))))"
proof -
  define s where "s = run r (start (newCache a b m) reqs) evs"
  define c where "c = the_cache s"
  define lru where
    "lru = filter (resident c) (by_recency (touches r (start (newCache a b m) reqs) evs))"
  define c0 where "c0 = c\<lparr>size' := size' c + 1, misses := misses c + 1,
                       bytes := Cache.bytes c + cacheItem.bytes (heap c ! e)\<rparr>"
  have ok: "sys_ok r s" unfolding s_def by (rule sys_ok_run [OF sys_ok_start])
  then have wf: "wf_cache c" by (simp add: sys_ok_def c_def)
  have "lru_order ([] @ touches r (start (newCache a b m) reqs) evs) c"
    unfolding c_def s_def by (rule lru_run [OF sys_ok_start lru_start])
  then have qk: "queue_keys c = lru" by (simp add: lru_order_def lru_def)
  then have len: "length (queue c) = length lru" by (simp add: queue_keys_def [symmetric] flip: length_map [of "\<lambda>e. key (heap c ! e)"])
  from account_removes_back [OF wf, of e]
  obtain n where n: "n \<le> length (queue c)"
    "account c e False = Some ((remove_back ^^ n) c0)"
    "Cache.bytes ((remove_back ^^ n) c0) \<le>s maxBytes c \<or>
       items ((remove_back ^^ n) c0) = [] \<and> queue ((remove_back ^^ n) c0) = []"
    "\<forall>j < n. maxBytes c <s Cache.bytes ((remove_back ^^ j) c0) \<and>
             queue ((remove_back ^^ j) c0) \<noteq> []"
    "queue ((remove_back ^^ n) c0) = take (length (queue c) - n) (queue c)"
    "size' ((remove_back ^^ n) c0) = size' c + 1 - of_nat n"
    "evictions ((remove_back ^^ n) c0) = evictions c + of_nat n"
    "maxBytes c = (if 0 <s MaxBytes c then MaxBytes c else 1024 * 1024)"
    unfolding Let_def c0_def by blast
  let ?c' = "(remove_back ^^ n) c0"
  have wf0: "wf_cache c0" using wf by (simp add: wf_cache_def c0_def)
  have qk0: "queue_keys c0 = lru" using qk by (simp add: queue_keys_def c0_def)
  have qk': "queue_keys ?c' = take (length lru - n) lru"
    using remove_back_pow_keys [of n c0] qk0 by simp
  have wf': "wf_cache ?c'" using account_Some [OF wf, of e False] n(2) by simp
  have res: "resident ?c' k \<longleftrightarrow> k \<in> set (take (length lru - n) lru)" for k
    using wf_resident_keys [OF wf', of k] qk' by simp
  have mb0: "maxBytes c0 = maxBytes c" by (simp add: maxBytes_def c0_def)
  have steps: "the_cache (run r s (Caller i Count # replicate (Suc n) (Caller i Evict))) = ?c' \<and>
        pc (callers (run r s (Caller i Count # replicate (Suc n) (Caller i Evict))) ! i)
          = Returned (result ?c' e)"
    if i: "i < length (callers s)" and p: "pc (callers s ! i) = AtStats e False" for i
  proof -
    let ?s1 = "step r s (Caller i Count)"
    have us: "update_stats c e False = (c0, AtBudget e (Cache.bytes c0))"
      by (simp add: update_stats_def Let_def c0_def)
    note st = step_Count [OF i p, of r, folded c_def, unfolded us fst_conv snd_conv]
    have 1: "wf_cache (the_cache ?s1)" using st(1) wf0 by simp
    have 2: "i < length (callers ?s1)" using st(2) i by simp
    have 3: "pc (callers ?s1 ! i) = AtBudget e (Cache.bytes (the_cache ?s1))"
      using st(1,3) by simp
    have 4: "\<forall>j < n. maxBytes (the_cache ?s1) <s Cache.bytes ((remove_back ^^ j) (the_cache ?s1)) \<and>
                 queue ((remove_back ^^ j) (the_cache ?s1)) \<noteq> []"
      unfolding st(1) mb0 using n(4) by simp
    have 5: "Cache.bytes ((remove_back ^^ n) (the_cache ?s1)) \<le>s maxBytes (the_cache ?s1) \<or>
         items ((remove_back ^^ n) (the_cache ?s1)) = []"
      unfolding st(1) mb0 using n(3) by blast
    from evict_steps [OF 1 2 3 4 5, of r] show ?thesis
      unfolding st(1) by simp
  qed
  have "n \<le> length lru" using n(1) len by simp
  then have "\<exists>n \<le> length lru.
          account c e False = Some ((remove_back ^^ n) c0) \<and>
              (Cache.bytes ((remove_back ^^ n) c0) \<le>s maxBytes c \<or>
                 items ((remove_back ^^ n) c0) = [] \<and> queue ((remove_back ^^ n) c0) = []) \<and>
              (\<forall>j < n. maxBytes c <s Cache.bytes ((remove_back ^^ j) c0) \<and>
                       queue ((remove_back ^^ j) c0) \<noteq> []) \<and>
              queue ((remove_back ^^ n) c0) = take (length (queue c) - n) (queue c) \<and>
              queue_keys ((remove_back ^^ n) c0) = take (length lru - n) lru \<and>
              (\<forall>k. resident ((remove_back ^^ n) c0) k \<longleftrightarrow> k \<in> set (take (length lru - n) lru)) \<and>
              size' ((remove_back ^^ n) c0) = size' c + 1 - of_nat n \<and>
              evictions ((remove_back ^^ n) c0) = evictions c + of_nat n \<and>
              maxBytes c = (if 0 <s MaxBytes c then MaxBytes c else 1024 * 1024) \<and>
              (\<forall>i < length (callers s). pc (callers s ! i) = AtStats e False \<longrightarrow>
                 the_cache (run r s (Caller i Count # replicate (Suc n) (Caller i Evict)))
                   = (remove_back ^^ n) c0 \<and>
                 pc (callers (run r s (Caller i Count # replicate (Suc n) (Caller i Evict))) ! i)
                   = Returned (result ((remove_back ^^ n) c0) e))"
    using n(2,3,4,5,6,7,8) qk' res steps
    by (intro exI [of _ n] conjI allI impI) blast+
  with qk show ?thesis
    unfolding Let_def s_def [symmetric] c_def [symmetric] lru_def [symmetric] c0_def [symmetric]
    by blast
qed

theorem budget_eviction_witness:
  "pc (callers lru_state ! 3) = AtStats 2 False \<and>
   map name (queue_keys (the_cache lru_state)) = [''s3'', ''s1'', ''s2''] \<and>
   map name (by_recency (touches trio_registry (start (newCache 0 0 500) lru_requests)
                            lru_schedule)) = [''s3'', ''s1'', ''s2''] \<and>
   map_option (\<lambda>c. (map name (queue_keys c), Stats c)) (account (the_cache lru_state) 2 False)
     = Some ([''s3'', ''s1''],
             \<lparr>Bytes = 486, Size = 2, Hits = 1, Misses = 3, Evictions = 1\<rparr>) \<and>
   (\<exists>n \<le> 3.
      map_option queue_keys (account (the_cache lru_state) 2 False)
        = Some (take (3 - n) (queue_keys (the_cache lru_state))) \<and>
      Some (the_cache (run trio_registry lru_state
                         (Caller 3 Count # replicate (Suc n) (Caller 3 Evict))))
        = account (the_cache lru_state) 2 False)"
proof -
  let ?c = "the_cache lru_state"
  have ev: "pc (callers lru_state ! 3) = AtStats 2 False"
    "map name (queue_keys ?c) = [''s3'', ''s1'', ''s2'']"
    "map name (by_recency (touches trio_registry (start (newCache 0 0 500) lru_requests)
                            lru_schedule)) = [''s3'', ''s1'', ''s2'']"
    "map_option (\<lambda>c. (map name (queue_keys c), Stats c)) (account ?c 2 False)
     = Some ([''s3'', ''s1''],
             \<lparr>Bytes = 486, Size = 2, Hits = 1, Misses = 3, Evictions = 1\<rparr>)"
    "length (callers lru_state) = 4"
    by code_simp+
  have len: "length (queue_keys ?c) = 3"
    using arg_cong [OF ev(2), of length] by simp
  from budget_eviction [of trio_registry 0 0 500 lru_requests lru_schedule 2]
  obtain n where n: "n \<le> length (queue_keys ?c)"
    "account ?c 2 False = Some ((remove_back ^^ n)
        (?c\<lparr>size' := size' ?c + 1, misses := misses ?c + 1,
             bytes := Cache.bytes ?c + cacheItem.bytes (heap ?c ! 2)\<rparr>))"
    "queue_keys ((remove_back ^^ n)
        (?c\<lparr>size' := size' ?c + 1, misses := misses ?c + 1,
             bytes := Cache.bytes ?c + cacheItem.bytes (heap ?c ! 2)\<rparr>))
       = take (length (queue_keys ?c) - n) (queue_keys ?c)"
    "\<forall>i < length (callers lru_state). pc (callers lru_state ! i) = AtStats 2 False \<longrightarrow>
       the_cache (run trio_registry lru_state
                    (Caller i Count # replicate (Suc n) (Caller i Evict)))
         = (remove_back ^^ n)
        (?c\<lparr>size' := size' ?c + 1, misses := misses ?c + 1,
             bytes := Cache.bytes ?c + cacheItem.bytes (heap ?c ! 2)\<rparr>)"
    unfolding Let_def lru_state_def [symmetric] by metis
  have "the_cache (run trio_registry lru_state
                    (Caller 3 Count # replicate (Suc n) (Caller 3 Evict)))
         = (remove_back ^^ n)
        (?c\<lparr>size' := size' ?c + 1, misses := misses ?c + 1,
             bytes := Cache.bytes ?c + cacheItem.bytes (heap ?c ! 2)\<rparr>)"
    using n(4) ev(1,5) by simp
  then have "n \<le> 3 \<and>
      map_option queue_keys (account ?c 2 False) = Some (take (3 - n) (queue_keys ?c)) \<and>
      Some (the_cache (run trio_registry lru_state
                         (Caller 3 Count # replicate (Suc n) (Caller 3 Evict))))
        = account ?c 2 False"
    using n(1,2,3) len by simp
  then show ?thesis using ev(1-4) by blast
qed

subsection \<open>The ledger of the entries\<close>



lemma ledger_stats_irrelevant:
  assumes "ledger c" "items c' = items c" "length (heap c') = length (heap c)"
    "evictions c' = evictions c"
  shows "ledger c'"
  using assms by (simp add: ledger_def)













subsection \<open>Misses and entries\<close>









subsection \<open>The ledger under interleaving\<close>

















end
